theory Spec2Isabelle
  imports Main "HOL-Library.Word"
begin

unbundle bit_operations_syntax

section \<open>MIFARE Classic random access tool (utils/nfc-mfra.c)\<close>

text \<open>
  A shallow embedding of the sector access engine of \<^verbatim>\<open>nfc-mfra.c\<close>: the sector
  layout predicates, \<^verbatim>\<open>authenticate\<close>, \<^verbatim>\<open>unlock_card\<close>, \<^verbatim>\<open>read_sector\<close>,
  \<^verbatim>\<open>write_sector\<close> and the sector loop that ends \<^verbatim>\<open>main\<close>.

  The globals of the C file are the fields of one state record that every function
  takes and returns. The reader and the tag are outside the program: every call into
  libnfc is answered by a \<open>device\<close>, a record of functions from the history of the
  exchange so far (and the arguments of the call) to the result of the call, and every
  call is appended to the \<open>trace\<close> of the state. A property that holds for every
  \<open>device\<close> holds for every reader and tag, whatever they answer. Console output
  (\<^verbatim>\<open>printf\<close>, the per-block progress marks and the block counters that are only
  printed) is not part of the model.

  Block numbers stay below 1024, since a sector number is a \<^verbatim>\<open>uint8_t\<close>: the loop
  counters are \<open>int\<close> (\<^verbatim>\<open>int32_t\<close> in \<^verbatim>\<open>read_sector\<close>) and \<open>nat\<close>
  (\<^verbatim>\<open>uint32_t\<close> in \<^verbatim>\<open>write_sector\<close>), converted where a \<^verbatim>\<open>uint32_t\<close> is
  passed. The layout functions are on 32-bit words, where \<open>uiBlock + 1\<close> wraps around.
  The images have 256 blocks in C; \<^verbatim>\<open>main\<close> admits the sectors 0 to 15 only.
\<close>

subsection \<open>Sector layout\<close>

type_synonym byte = "8 word"
type_synonym uint32 = "32 word"

definition is_first_block :: "uint32 \<Rightarrow> bool" where
  "is_first_block uiBlock =
     (if uiBlock < 128 then uiBlock mod 4 = 0 else uiBlock mod 16 = 0)"

definition is_trailer_block :: "uint32 \<Rightarrow> bool" where
  "is_trailer_block uiBlock =
     (if uiBlock < 128 then (uiBlock + 1) mod 4 = 0 else (uiBlock + 1) mod 16 = 0)"

definition get_trailer_block :: "uint32 \<Rightarrow> uint32" where
  "get_trailer_block uiFirstBlock =
     (if uiFirstBlock < 128 then uiFirstBlock + (3 - uiFirstBlock mod 4)
      else uiFirstBlock + (15 - uiFirstBlock mod 16))"

subsection \<open>Card images and command parameters\<close>

text \<open>
  A block of a card image (\<^verbatim>\<open>mifare_classic_block\<close>) is 16 bytes, seen through a
  union as data (\<^verbatim>\<open>mbd.abtData\<close>, all 16 bytes) or as a sector trailer
  (\<^verbatim>\<open>mbt\<close>: key A in bytes 0 to 5, the access bits in bytes 6 to 9, key B in
  bytes 10 to 15). A block is a list of bytes; each accessor reads its byte range and
  each \<open>set_\<close> function is the \<^verbatim>\<open>memcpy\<close> into that range
  (\<open>memcpy_at off n src dst\<close> copies \<open>n\<close> bytes of \<open>src\<close> to offset \<open>off\<close> of
  \<open>dst\<close>). A card image
  (\<^verbatim>\<open>mifare_classic_tag\<close>, the array \<^verbatim>\<open>amb\<close>) maps a block index to a block.
\<close>

type_synonym mifare_classic_block = "byte list"
type_synonym mifare_classic_tag = "nat \<Rightarrow> mifare_classic_block"

definition memcpy_at :: "nat \<Rightarrow> nat \<Rightarrow> byte list \<Rightarrow> byte list \<Rightarrow> byte list" where
  "memcpy_at off n src dst = take off dst @ take n src @ drop (off + n) dst"

definition abtKeyA :: "mifare_classic_block \<Rightarrow> byte list" where
  "abtKeyA blk = take 6 blk"

definition abtAccessBits :: "mifare_classic_block \<Rightarrow> byte list" where
  "abtAccessBits blk = take 4 (drop 6 blk)"

definition abtKeyB :: "mifare_classic_block \<Rightarrow> byte list" where
  "abtKeyB blk = take 6 (drop 10 blk)"

definition set_abtKeyA :: "byte list \<Rightarrow> mifare_classic_block \<Rightarrow> mifare_classic_block" where
  "set_abtKeyA src blk = memcpy_at 0 6 src blk"

definition set_abtAccessBits :: "byte list \<Rightarrow> mifare_classic_block \<Rightarrow> mifare_classic_block" where
  "set_abtAccessBits src blk = memcpy_at 6 4 src blk"

definition set_abtKeyB :: "byte list \<Rightarrow> mifare_classic_block \<Rightarrow> mifare_classic_block" where
  "set_abtKeyB src blk = memcpy_at 10 6 src blk"

definition set_mbd_abtData :: "byte list \<Rightarrow> mifare_classic_block \<Rightarrow> mifare_classic_block" where
  "set_mbd_abtData src blk = memcpy_at 0 16 src blk"

text \<open>
  The command parameters \<^verbatim>\<open>mp\<close>: the authentication view (\<^verbatim>\<open>mpa\<close>: key and
  the last four bytes of the UID) and the data view (\<^verbatim>\<open>mpd\<close>). The program
  fills a view completely before each command that reads it, so the views are kept as
  separate fields.
\<close>

record mifare_param =
  abtKey :: "byte list"
  abtAuthUid :: "byte list"
  abtData :: "byte list"

record nfc_target =
  abtUid :: "byte list"
  szUidLen :: nat

subsection \<open>The reader and the tag\<close>

datatype mifare_cmd = MC_AUTH_A | MC_AUTH_B | MC_READ | MC_WRITE

datatype nfc_property = NP_HANDLE_CRC | NP_EASY_FRAMING

text \<open>
  One entry of the trace for each call into libnfc, with the arguments that reach the
  reader and, for the calls whose result decides what the program does next, the result
  (for a MIFARE command whether it succeeded, for the others the integer that libnfc
  returns, negative on error). The answer to a select is a function of the trace before
  it, like every other answer, and is not repeated in the trace.
\<close>

datatype event =
    MifareCmd mifare_cmd nat "byte list" bool
  | SelectPassiveTarget "byte list"
  | SetPropertyBool nfc_property bool int
  | TransceiveBytes "byte list" int
  | TransceiveBits "byte list" nat int
  | DumpFileOpen bool
  | DumpFileWrite bool

record device =
  mifare_reply :: "event list \<Rightarrow> mifare_cmd \<Rightarrow> nat \<Rightarrow> byte list \<Rightarrow> bool \<times> byte list"
  select_reply :: "event list \<Rightarrow> byte list \<Rightarrow> int \<times> nfc_target"
  property_reply :: "event list \<Rightarrow> nfc_property \<Rightarrow> bool \<Rightarrow> int"
  bytes_reply :: "event list \<Rightarrow> byte list \<Rightarrow> int"
  bits_reply :: "event list \<Rightarrow> byte list \<Rightarrow> nat \<Rightarrow> int"
  crc_append :: "byte list \<Rightarrow> nat \<Rightarrow> byte list"
  fopen_reply :: "event list \<Rightarrow> bool"
  fwrite_reply :: "event list \<Rightarrow> bool"

record state =
  trace :: "event list"
  nt :: nfc_target
  mp :: mifare_param
  mtKeys :: mifare_classic_tag
  mtDump :: mifare_classic_tag
  abtHalt :: "byte list"
  bUseKeyA :: bool
  bUseKeyFile :: bool
  bTolerateFailures :: bool
  magic2 :: bool

definition keys :: "byte list" where
  "keys =
    [0xff, 0xff, 0xff, 0xff, 0xff, 0xff,
     0xd3, 0xf7, 0xd3, 0xf7, 0xd3, 0xf7,
     0xa0, 0xa1, 0xa2, 0xa3, 0xa4, 0xa5,
     0xb0, 0xb1, 0xb2, 0xb3, 0xb4, 0xb5,
     0x4d, 0x3a, 0x99, 0xc3, 0x51, 0xdd,
     0x1a, 0x98, 0x2c, 0x7e, 0x45, 0x9a,
     0xaa, 0xbb, 0xcc, 0xdd, 0xee, 0xff,
     0x00, 0x00, 0x00, 0x00, 0x00, 0x00,
     0xab, 0xcd, 0xef, 0x12, 0x34, 0x56]"

definition num_keys :: nat where
  "num_keys = length keys div 6"

definition candidate_key :: "nat \<Rightarrow> byte list" where
  "candidate_key key_index = take 6 (drop (key_index * 6) keys)"

definition SECTOR_SIZE :: int where
  "SECTOR_SIZE = 4"

definition abtUnlock1 :: "byte list" where
  "abtUnlock1 = [0x40]"

definition abtUnlock2 :: "byte list" where
  "abtUnlock2 = [0x43]"

text \<open>
  The bytes of \<^verbatim>\<open>mp\<close> that a MIFARE command sends: the key and the UID bytes for an
  authentication, the 16 data bytes for a write, nothing for a read.
\<close>

definition mifare_cmd_params :: "mifare_cmd \<Rightarrow> mifare_param \<Rightarrow> byte list" where
  "mifare_cmd_params mc p =
     (case mc of
        MC_AUTH_A \<Rightarrow> abtKey p @ abtAuthUid p
      | MC_AUTH_B \<Rightarrow> abtKey p @ abtAuthUid p
      | MC_READ \<Rightarrow> []
      | MC_WRITE \<Rightarrow> abtData p)"

text \<open>
  Modelled from the spec: \<^verbatim>\<open>nfc_initiator_mifare_cmd\<close> (utils/mifare.c, which is not
  among the sources), the CardProtocol collaborator that "accepts a logical block number
  and key/auth context and returns success/failure plus data". Whether the command
  succeeds, and the block that a read returns, is the answer of the device. A successful
  read stores the received block into the data view of \<^verbatim>\<open>mp\<close>; otherwise \<^verbatim>\<open>mp\<close>
  is left as it is.
\<close>

definition nfc_initiator_mifare_cmd ::
  "device \<Rightarrow> mifare_cmd \<Rightarrow> nat \<Rightarrow> state \<Rightarrow> bool \<times> state" where
  "nfc_initiator_mifare_cmd d mc ui8Block s =
     (let params = mifare_cmd_params mc (mp s);
          (ok, rx) = mifare_reply d (trace s) mc ui8Block params;
          s' = s\<lparr>trace := trace s @ [MifareCmd mc ui8Block params ok]\<rparr>
      in if mc = MC_READ \<and> ok then (True, s'\<lparr>mp := (mp s')\<lparr>abtData := rx\<rparr>\<rparr>)
         else (ok, s'))"

text \<open>
  Modelled from the spec: \<^verbatim>\<open>nfc_initiator_select_passive_target\<close> of libnfc (not
  among the sources), the anticollision and selection of the Transceiver collaborator. It
  returns the number of targets found (or a negative error) and the target; the caller
  stores the target where it passed \<^verbatim>\<open>&nt\<close>. The argument is the UID given as
  initiator data (empty for \<^verbatim>\<open>NULL, 0\<close>).
\<close>

definition nfc_initiator_select_passive_target ::
  "device \<Rightarrow> byte list \<Rightarrow> state \<Rightarrow> (int \<times> nfc_target) \<times> state" where
  "nfc_initiator_select_passive_target d pbtInitData s =
     (let (res, tgt) = select_reply d (trace s) pbtInitData
      in ((res, tgt), s\<lparr>trace := trace s @ [SelectPassiveTarget pbtInitData]\<rparr>))"

text \<open>
  Modelled from the spec: \<^verbatim>\<open>nfc_device_set_property_bool\<close> of libnfc (not among the
  sources), which "configures low-level framing options" of the Transceiver and returns a
  negative number on error.
\<close>

definition nfc_device_set_property_bool ::
  "device \<Rightarrow> nfc_property \<Rightarrow> bool \<Rightarrow> state \<Rightarrow> int \<times> state" where
  "nfc_device_set_property_bool d property bEnable s =
     (let res = property_reply d (trace s) property bEnable
      in (res, s\<lparr>trace := trace s @ [SetPropertyBool property bEnable res]\<rparr>))"

text \<open>
  \<^verbatim>\<open>transmit_bits\<close> and \<^verbatim>\<open>transmit_bytes\<close>: the result of
  \<^verbatim>\<open>nfc_initiator_transceive_bits\<close> or \<^verbatim>\<open>nfc_initiator_transceive_bytes\<close> (the
  number of bits or bytes received, negative on error) is the answer of the device. The
  received frame is only printed.
\<close>

definition transmit_bits :: "device \<Rightarrow> byte list \<Rightarrow> nat \<Rightarrow> state \<Rightarrow> bool \<times> state" where
  "transmit_bits d pbtTx szTxBits s =
     (let szRxBits = bits_reply d (trace s) pbtTx szTxBits;
          s' = s\<lparr>trace := trace s @ [TransceiveBits pbtTx szTxBits szRxBits]\<rparr>
      in if szRxBits < 0 then (False, s') else (True, s'))"

definition transmit_bytes :: "device \<Rightarrow> byte list \<Rightarrow> state \<Rightarrow> bool \<times> state" where
  "transmit_bytes d pbtTx s =
     (let res = bytes_reply d (trace s) pbtTx;
          s' = s\<lparr>trace := trace s @ [TransceiveBytes pbtTx res]\<rparr>
      in if res < 0 then (False, s') else (True, s'))"

subsection \<open>authenticate\<close>

text \<open>
  \<open>remember_key\<close> is the \<^verbatim>\<open>memcpy\<close> of the key that was accepted into
  \<^verbatim>\<open>mtKeys.amb[uiBlock]\<close>, and \<open>authenticate_guess\<close> the loop over the dictionary
  from \<open>key_index\<close> on.
\<close>

definition remember_key :: "uint32 \<Rightarrow> state \<Rightarrow> state" where
  "remember_key uiBlock s =
     (if bUseKeyA s
      then s\<lparr>mtKeys := (mtKeys s)(unat uiBlock := set_abtKeyA (abtKey (mp s)) (mtKeys s (unat uiBlock)))\<rparr>
      else s\<lparr>mtKeys := (mtKeys s)(unat uiBlock := set_abtKeyB (abtKey (mp s)) (mtKeys s (unat uiBlock)))\<rparr>)"

function authenticate_guess ::
  "device \<Rightarrow> mifare_cmd \<Rightarrow> uint32 \<Rightarrow> nat \<Rightarrow> state \<Rightarrow> bool \<times> state" where
  "authenticate_guess d mc uiBlock key_index s =
     (if key_index < num_keys then
        (let s1 = s\<lparr>mp := (mp s)\<lparr>abtKey := candidate_key key_index\<rparr>\<rparr>;
             (ok, s2) = nfc_initiator_mifare_cmd d mc (unat uiBlock) s1
         in if ok then (True, remember_key uiBlock s2)
            else authenticate_guess d mc uiBlock (key_index + 1)
                   (snd (nfc_initiator_select_passive_target d
                           (take (szUidLen (nt s2)) (abtUid (nt s2))) s2)))
      else (False, s))"
  by pat_completeness auto
termination
  by (relation "measure (\<lambda>(d, mc, uiBlock, key_index, s). num_keys - key_index)") auto

definition authenticate :: "device \<Rightarrow> uint32 \<Rightarrow> state \<Rightarrow> bool \<times> state" where
  "authenticate d uiBlock s =
     (let s0 = s\<lparr>mp := (mp s)\<lparr>abtAuthUid :=
                  take 4 (drop (szUidLen (nt s) - 4) (abtUid (nt s)))\<rparr>\<rparr>;
          mc = (if bUseKeyA s0 then MC_AUTH_A else MC_AUTH_B)
      in if bUseKeyFile s0 then
           (let uiTrailerBlock = get_trailer_block uiBlock;
                s1 = (if bUseKeyA s0
                      then s0\<lparr>mp := (mp s0)\<lparr>abtKey := abtKeyA (mtKeys s0 (unat uiTrailerBlock))\<rparr>\<rparr>
                      else s0\<lparr>mp := (mp s0)\<lparr>abtKey := abtKeyB (mtKeys s0 (unat uiTrailerBlock))\<rparr>\<rparr>);
                (ok, s2) = nfc_initiator_mifare_cmd d mc (unat uiBlock) s1
            in if ok then (True, s2) else (False, s2))
         else authenticate_guess d mc uiBlock 0 s0)"

subsection \<open>unlock_card\<close>

definition unlock_card :: "device \<Rightarrow> state \<Rightarrow> bool \<times> state" where
  "unlock_card d s =
     (if magic2 s then (False, s)
      else
        (let (r1, s1) = nfc_device_set_property_bool d NP_HANDLE_CRC False s in
         if r1 < 0 then (False, s1)
         else
           (let (r2, s2) = nfc_device_set_property_bool d NP_EASY_FRAMING False s1 in
            if r2 < 0 then (False, s2)
            else
              (let s3 = s2\<lparr>abtHalt := crc_append d (abtHalt s2) 2\<rparr>;
                   (r4, s4) = transmit_bytes d (take 4 (abtHalt s3)) s3;
                   (r5, s5) = transmit_bits d abtUnlock1 7 s4 in
               if \<not> r5 then (False, s5)
               else
                 (let (r6, s6) = transmit_bytes d (take 1 abtUnlock2) s5 in
                  if \<not> r6 then (False, s6)
                  else
                    (let (r7, s7) = nfc_device_set_property_bool d NP_HANDLE_CRC True s6 in
                     if r7 < 0 then (False, s7)
                     else
                       (let (r8, s8) = nfc_device_set_property_bool d NP_EASY_FRAMING True s7 in
                        if r8 < 0 then (False, s8) else (True, s8))))))))"

subsection \<open>read_sector\<close>

text \<open>
  The body of a loop either leaves the function (\<open>Return\<close>, with the result) or goes
  on to the next block (\<open>Continue\<close>, with the value of \<^verbatim>\<open>bFailure\<close>).
  \<open>finish_block\<close> is the end of the body of both loops: after the progress mark,
  \<^verbatim>\<open>if ((! bTolerateFailures) && bFailure) return false;\<close>.
\<close>

datatype flow = Return bool state | Continue bool state

definition finish_block :: "bool \<Rightarrow> state \<Rightarrow> flow" where
  "finish_block bFailure s =
     (if \<not> bTolerateFailures s \<and> bFailure then Return False s else Continue bFailure s)"

text \<open>
  The anti-collision that both loops redo when they reach a new group after a failure.
  The first component says whether the tag is still there; the target is stored into
  \<^verbatim>\<open>nt\<close> when one was found.
\<close>

definition reselect_after_failure :: "device \<Rightarrow> bool \<Rightarrow> state \<Rightarrow> bool \<times> state" where
  "reselect_after_failure d bFailure s =
     (if bFailure then
        (let ((res, tgt), s') = nfc_initiator_select_passive_target d [] s
         in if res \<le> 0 then (False, s') else (True, s'\<lparr>nt := tgt\<rparr>))
      else (True, s))"

text \<open>
  The body of the loop of \<^verbatim>\<open>read_sector\<close> for one block, and the loop from
  \<open>iBlock\<close> down to \<open>iFirstDataBlock\<close>.
\<close>

definition read_sector_block :: "device \<Rightarrow> int \<Rightarrow> int \<Rightarrow> bool \<Rightarrow> state \<Rightarrow> flow" where
  "read_sector_block d read_unlocked iBlock bFailure s =
     (if is_trailer_block (word_of_int iBlock) then
        (let (present, s1) = reselect_after_failure d bFailure s in
         if \<not> present then Return False s1
         else
           (let (authenticated, s2) =
                  (if read_unlocked = 0 then authenticate d (word_of_int iBlock) s1
                   else (True, s1)) in
            if \<not> authenticated then Return False s2
            else
              (let (ok, s3) = nfc_initiator_mifare_cmd d MC_READ (nat iBlock) s2 in
               if ok then
                 (if read_unlocked \<noteq> 0 then
                    finish_block False
                      (s3\<lparr>mtDump := (mtDump s3)(nat iBlock :=
                          set_mbd_abtData (abtData (mp s3)) (mtDump s3 (nat iBlock)))\<rparr>)
                  else
                    finish_block False
                      (s3\<lparr>mtDump := (mtDump s3)(nat iBlock :=
                          set_abtKeyB (abtKeyB (mtKeys s3 (nat iBlock)))
                            (set_abtAccessBits (drop 6 (abtData (mp s3)))
                               (set_abtKeyA (abtKeyA (mtKeys s3 (nat iBlock)))
                                  (mtDump s3 (nat iBlock)))))\<rparr>))
               else finish_block True s3)))
      else
        (if \<not> bFailure then
           (let (ok, s1) = nfc_initiator_mifare_cmd d MC_READ (nat iBlock) s in
            if ok then
              finish_block False
                (s1\<lparr>mtDump := (mtDump s1)(nat iBlock :=
                    set_mbd_abtData (abtData (mp s1)) (mtDump s1 (nat iBlock)))\<rparr>)
            else finish_block True s1)
         else finish_block bFailure s))"

function read_sector_loop ::
  "device \<Rightarrow> int \<Rightarrow> int \<Rightarrow> int \<Rightarrow> bool \<Rightarrow> state \<Rightarrow> bool \<times> state" where
  "read_sector_loop d read_unlocked iFirstDataBlock iBlock bFailure s =
     (if iBlock \<ge> iFirstDataBlock then
        (case read_sector_block d read_unlocked iBlock bFailure s of
           Return r s' \<Rightarrow> (r, s')
         | Continue bFailure' s' \<Rightarrow>
             read_sector_loop d read_unlocked iFirstDataBlock (iBlock - 1) bFailure' s')
      else (True, s))"
  by pat_completeness auto
termination
  by (relation "measure (\<lambda>(d, u, iFirstDataBlock, iBlock, b, s). nat (iBlock + 1 - iFirstDataBlock))")
    auto

definition read_sector :: "device \<Rightarrow> byte \<Rightarrow> int \<Rightarrow> state \<Rightarrow> bool \<times> state" where
  "read_sector d iSector read_unlocked s =
     (let iTrailerBlock = ((uint iSector + 1) * 4) - 1;
          iFirstDataBlock = iTrailerBlock - SECTOR_SIZE + 1
      in if read_unlocked \<noteq> 0 then
           (let (unlocked, s1) = unlock_card d s in
            if \<not> unlocked then (False, s1)
            else read_sector_loop d read_unlocked iFirstDataBlock iTrailerBlock False s1)
         else read_sector_loop d read_unlocked iFirstDataBlock iTrailerBlock False s)"

subsection \<open>write_sector\<close>

text \<open>
  The XOR of the first five bytes of a block: the four UID bytes and the BCC byte of
  block 0.
\<close>

definition bcc_xor :: "byte list \<Rightarrow> byte" where
  "bcc_xor abt = abt ! 0 XOR abt ! 1 XOR abt ! 2 XOR abt ! 3 XOR abt ! 4"

text \<open>
  The first statement of the body of the write loop, \<^verbatim>\<open>if (is_first_block(uiBlock))\<close>:
  the anti-collision after a failure and the authentication of the group. The result
  says whether the loop goes on (false: \<^verbatim>\<open>write_sector\<close> returns false here), and gives
  \<^verbatim>\<open>bFailure\<close> and the state after the statement.
\<close>

definition write_sector_first ::
  "device \<Rightarrow> int \<Rightarrow> nat \<Rightarrow> bool \<Rightarrow> state \<Rightarrow> bool \<times> bool \<times> state" where
  "write_sector_first d write_block_zero uiBlock bFailure s =
     (if is_first_block (of_nat uiBlock) then
        (let (present, s') = reselect_after_failure d bFailure s in
         if \<not> present then (False, bFailure, s')
         else
           (let (authenticated, s'') =
                  (if write_block_zero = 0 then authenticate d (of_nat uiBlock) s'
                   else (True, s'))
            in (authenticated, False, s'')))
      else (True, bFailure, s))"

text \<open>
  The body of the loop of \<^verbatim>\<open>write_sector\<close> for one block (the \<^verbatim>\<open>continue\<close> that
  skips block 0 goes on without the end of the body), and the loop from \<open>uiBlock\<close>
  up to \<open>iTrailerBlock\<close>.
\<close>

definition write_sector_block :: "device \<Rightarrow> int \<Rightarrow> nat \<Rightarrow> bool \<Rightarrow> state \<Rightarrow> flow" where
  "write_sector_block d write_block_zero uiBlock bFailure s =
     (let (entered, bFailure1, s1) = write_sector_first d write_block_zero uiBlock bFailure s
      in if \<not> entered then Return False s1
         else if is_trailer_block (of_nat uiBlock) then
           (let blk = mtDump s1 uiBlock;
                s2 = s1\<lparr>mp := (mp s1)\<lparr>abtData :=
                       memcpy_at 10 6 (abtKeyB blk)
                         (memcpy_at 6 4 (abtAccessBits blk)
                            (memcpy_at 0 6 (abtKeyA blk) (abtData (mp s1))))\<rparr>\<rparr>;
                (ok, s3) = nfc_initiator_mifare_cmd d MC_WRITE uiBlock s2
            in if ok = False then finish_block True s3 else finish_block bFailure1 s3)
         else if uiBlock = 0 \<and> write_block_zero = 0 \<and> \<not> magic2 s1 then Continue bFailure1 s1
         else if \<not> bFailure1 then
           (let s2 = s1\<lparr>mp := (mp s1)\<lparr>abtData :=
                       memcpy_at 0 16 (mtDump s1 uiBlock) (abtData (mp s1))\<rparr>\<rparr>
            in if uiBlock = 0 \<and> bcc_xor (abtData (mp s2)) \<noteq> 0 \<and> \<not> magic2 s2
               then Return False s2
               else
                 (let (ok, s3) = nfc_initiator_mifare_cmd d MC_WRITE uiBlock s2
                  in if \<not> ok then finish_block True s3 else finish_block bFailure1 s3))
         else finish_block bFailure1 s1)"

function write_sector_loop ::
  "device \<Rightarrow> int \<Rightarrow> nat \<Rightarrow> nat \<Rightarrow> bool \<Rightarrow> state \<Rightarrow> bool \<times> state" where
  "write_sector_loop d write_block_zero iTrailerBlock uiBlock bFailure s =
     (if uiBlock \<le> iTrailerBlock then
        (case write_sector_block d write_block_zero uiBlock bFailure s of
           Return r s' \<Rightarrow> (r, s')
         | Continue bFailure' s' \<Rightarrow>
             write_sector_loop d write_block_zero iTrailerBlock (uiBlock + 1) bFailure' s')
      else (True, s))"
  by pat_completeness auto
termination
  by (relation "measure (\<lambda>(d, w, iTrailerBlock, uiBlock, b, s). iTrailerBlock + 1 - uiBlock)")
    auto

definition write_sector :: "device \<Rightarrow> byte \<Rightarrow> int \<Rightarrow> state \<Rightarrow> bool \<times> state" where
  "write_sector d iSector write_block_zero s =
     (let iTrailerBlock = nat (((uint iSector + 1) * 4) - 1);
          iFirstDataBlock = nat (int iTrailerBlock - SECTOR_SIZE + 1)
      in if write_block_zero \<noteq> 0 then
           (let (unlocked, s1) = unlock_card d s in
            if \<not> unlocked then (False, s1)
            else write_sector_loop d write_block_zero iTrailerBlock iFirstDataBlock False s1)
         else write_sector_loop d write_block_zero iTrailerBlock iFirstDataBlock False s)"

subsection \<open>The sector loop of main\<close>

text \<open>
  The end of \<^verbatim>\<open>main\<close>: the loop over the sectors given on the command line and the
  exit code (the first component of the result). After a successful \<^verbatim>\<open>read_sector\<close>
  the dump file is opened and written, and a failure of either exits with
  \<^verbatim>\<open>EXIT_FAILURE\<close>; whether they succeed is the answer of the device.
\<close>

datatype action_t = ACTION_READ | ACTION_WRITE | ACTION_USAGE

definition EXIT_SUCCESS :: int where
  "EXIT_SUCCESS = 0"

definition EXIT_FAILURE :: int where
  "EXIT_FAILURE = 1"

definition fopen_dump :: "device \<Rightarrow> state \<Rightarrow> bool \<times> state" where
  "fopen_dump d s =
     (let ok = fopen_reply d (trace s) in (ok, s\<lparr>trace := trace s @ [DumpFileOpen ok]\<rparr>))"

definition fwrite_dump :: "device \<Rightarrow> state \<Rightarrow> bool \<times> state" where
  "fwrite_dump d s =
     (let ok = fwrite_reply d (trace s) in (ok, s\<lparr>trace := trace s @ [DumpFileWrite ok]\<rparr>))"

fun main_sectors ::
  "device \<Rightarrow> action_t \<Rightarrow> int \<Rightarrow> byte list \<Rightarrow> state \<Rightarrow> int \<times> state" where
  "main_sectors d atAction unlock [] s = (EXIT_SUCCESS, s)"
| "main_sectors d atAction unlock (iSector # lSector) s =
     (if atAction = ACTION_READ then
        (let (ok, s1) = read_sector d iSector unlock s in
         if ok then
           (let (opened, s2) = fopen_dump d s1 in
            if \<not> opened then (EXIT_FAILURE, s2)
            else
              (let (written, s3) = fwrite_dump d s2 in
               if \<not> written then (EXIT_FAILURE, s3)
               else main_sectors d atAction unlock lSector s3))
         else main_sectors d atAction unlock lSector s1)
      else if atAction = ACTION_WRITE then
        main_sectors d atAction unlock lSector (snd (write_sector d iSector unlock s))
      else main_sectors d atAction unlock lSector s)"

section \<open>Vocabulary of the properties\<close>

subsection \<open>Calls in the trace\<close>

text \<open>
  The calls that a run has added to the trace, and the kinds of call the properties
  speak about. \<open>call_failed\<close> reads the result recorded with a call.
\<close>

definition new_events :: "state \<Rightarrow> state \<Rightarrow> event list" where
  "new_events s s' = drop (length (trace s)) (trace s')"

fun is_auth_attempt :: "event \<Rightarrow> bool" where
  "is_auth_attempt (MifareCmd mc blk params ok) = (mc = MC_AUTH_A \<or> mc = MC_AUTH_B)"
| "is_auth_attempt e = False"

fun is_select :: "event \<Rightarrow> bool" where
  "is_select (SelectPassiveTarget u) = True"
| "is_select e = False"

fun is_read :: "event \<Rightarrow> bool" where
  "is_read (MifareCmd mc blk params ok) = (mc = MC_READ)"
| "is_read e = False"

fun is_write :: "event \<Rightarrow> bool" where
  "is_write (MifareCmd mc blk params ok) = (mc = MC_WRITE)"
| "is_write e = False"

fun is_failed_write :: "event \<Rightarrow> bool" where
  "is_failed_write (MifareCmd mc blk params ok) = (mc = MC_WRITE \<and> \<not> ok)"
| "is_failed_write e = False"

fun is_trailer_write :: "event \<Rightarrow> bool" where
  "is_trailer_write (MifareCmd mc blk params ok) = (mc = MC_WRITE \<and> is_trailer_block (of_nat blk))"
| "is_trailer_write e = False"

fun call_failed :: "event \<Rightarrow> bool" where
  "call_failed (MifareCmd mc blk params ok) = (\<not> ok)"
| "call_failed (SelectPassiveTarget u) = False"
| "call_failed (SetPropertyBool p b res) = (res < 0)"
| "call_failed (TransceiveBytes tx res) = (res < 0)"
| "call_failed (TransceiveBits tx n res) = (res < 0)"
| "call_failed (DumpFileOpen ok) = (\<not> ok)"
| "call_failed (DumpFileWrite ok) = (\<not> ok)"

subsection \<open>Authentication\<close>

text \<open>
  What \<open>authenticate\<close> sends for a state: the command for the key type, the last
  four bytes of the UID, and the UID it selects with. \<open>accepts d s b key tr\<close> is the
  answer of the tag to an authentication with the key \<open>key\<close> on the block \<open>b\<close>
  when the history of the exchange is \<open>tr\<close>. \<open>rejected_calls\<close> are the calls of the
  guessing loop for the rejected candidates \<open>i\<close> to \<open>k - 1\<close>: each attempt and the
  select that follows it; \<open>failed_attempts s b i k\<close> are these calls for a call of
  \<open>authenticate\<close> in the state \<open>s\<close>. So \<open>trace s @ failed_attempts s b 0 i\<close> is the
  history at the moment the loop tries the candidate \<open>i\<close>.
\<close>

definition auth_cmd :: "state \<Rightarrow> mifare_cmd" where
  "auth_cmd s = (if bUseKeyA s then MC_AUTH_A else MC_AUTH_B)"

definition auth_uid :: "state \<Rightarrow> byte list" where
  "auth_uid s = take 4 (drop (szUidLen (nt s) - 4) (abtUid (nt s)))"

definition tag_uid :: "state \<Rightarrow> byte list" where
  "tag_uid s = take (szUidLen (nt s)) (abtUid (nt s))"

definition accepts :: "device \<Rightarrow> state \<Rightarrow> uint32 \<Rightarrow> byte list \<Rightarrow> event list \<Rightarrow> bool" where
  "accepts d s uiBlock key tr =
     fst (mifare_reply d tr (auth_cmd s) (unat uiBlock) (key @ auth_uid s))"

definition rejected_calls ::
  "mifare_cmd \<Rightarrow> nat \<Rightarrow> byte list \<Rightarrow> byte list \<Rightarrow> nat \<Rightarrow> nat \<Rightarrow> event list" where
  "rejected_calls mc blk uid4 uid i k =
     concat (map (\<lambda>j. [MifareCmd mc blk (candidate_key j @ uid4) False,
                        SelectPassiveTarget uid]) [i..<k])"

definition failed_attempts :: "state \<Rightarrow> uint32 \<Rightarrow> nat \<Rightarrow> nat \<Rightarrow> event list" where
  "failed_attempts s uiBlock i k =
     rejected_calls (auth_cmd s) (unat uiBlock) (auth_uid s) (tag_uid s) i k"

subsection \<open>The unlock sequence\<close>

text \<open>
  The seven calls of \<open>unlock_card\<close> with their results, and the number of them that
  are made: the sequence is cut after the first negative result other than \<open>r3\<close>,
  the result of the HALT transceive.
\<close>

definition unlock_calls ::
  "byte list \<Rightarrow> int \<Rightarrow> int \<Rightarrow> int \<Rightarrow> int \<Rightarrow> int \<Rightarrow> int \<Rightarrow> int \<Rightarrow> event list" where
  "unlock_calls halt r1 r2 r3 r4 r5 r6 r7 =
     [SetPropertyBool NP_HANDLE_CRC False r1,
      SetPropertyBool NP_EASY_FRAMING False r2,
      TransceiveBytes halt r3,
      TransceiveBits abtUnlock1 7 r4,
      TransceiveBytes abtUnlock2 r5,
      SetPropertyBool NP_HANDLE_CRC True r6,
      SetPropertyBool NP_EASY_FRAMING True r7]"

definition unlock_stop :: "int \<Rightarrow> int \<Rightarrow> int \<Rightarrow> int \<Rightarrow> int \<Rightarrow> nat" where
  "unlock_stop r1 r2 r4 r5 r6 =
     (if r1 < 0 then 1 else if r2 < 0 then 2 else if r4 < 0 then 4
      else if r5 < 0 then 5 else if r6 < 0 then 6 else 7)"

subsection \<open>Passes over a sector\<close>

text \<open>
  \<open>blocks_down first i\<close> are the blocks from \<open>i\<close> down to \<open>first\<close>, and
  \<open>read_events blks oks\<close> the read commands for the first blocks of \<open>blks\<close>, in
  order, with the results \<open>oks\<close>. \<open>sector_prelude\<close> is what a pass of
  \<open>read_sector\<close> does before its first read: the unlock sequence in unlocked
  mode, the authentication of the trailer otherwise. \<open>data_run\<close> and \<open>read_pass\<close>
  are the invariants of the read loop over the data blocks of a sector and over a whole
  sector.
\<close>

definition blocks_down :: "int \<Rightarrow> int \<Rightarrow> nat list" where
  "blocks_down iFirstDataBlock iBlock = map nat (rev [iFirstDataBlock..iBlock])"

definition read_events :: "nat list \<Rightarrow> bool list \<Rightarrow> event list" where
  "read_events blks oks = map (\<lambda>(blk, ok). MifareCmd MC_READ blk [] ok) (zip blks oks)"

definition sector_prelude :: "device \<Rightarrow> int \<Rightarrow> uint32 \<Rightarrow> state \<Rightarrow> bool \<times> state" where
  "sector_prelude d unlocked uiBlock s =
     (if unlocked \<noteq> 0 then unlock_card d s else authenticate d uiBlock s)"

definition data_run ::
  "device \<Rightarrow> int \<Rightarrow> int \<Rightarrow> int \<Rightarrow> bool \<Rightarrow> state \<Rightarrow> bool list \<Rightarrow> bool" where
  "data_run d u first i bF s oks =
     (trace (snd (read_sector_loop d u first i bF s)) =
        trace s @ read_events (blocks_down first i) oks \<and>
      length oks \<le> length (blocks_down first i) \<and>
      (bF \<longrightarrow> oks = []) \<and>
      (\<forall>ok \<in> set (butlast oks). ok) \<and>
      (\<not> bF \<and> (\<forall>ok \<in> set oks. ok) \<longrightarrow> length oks = length (blocks_down first i)) \<and>
      fst (read_sector_loop d u first i bF s) =
        (bTolerateFailures s \<or> i < first \<or> (\<not> bF \<and> (\<forall>ok \<in> set oks. ok))) \<and>
      bTolerateFailures (snd (read_sector_loop d u first i bF s)) = bTolerateFailures s)"

definition read_pass ::
  "device \<Rightarrow> int \<Rightarrow> int \<Rightarrow> int \<Rightarrow> state \<Rightarrow> bool \<Rightarrow> state \<Rightarrow> bool list \<Rightarrow> bool" where
  "read_pass d u first i s a s1 oks =
     (trace (snd (read_sector_loop d u first i False s)) =
        trace s1 @ read_events (blocks_down first i) oks \<and>
      length oks \<le> length (blocks_down first i) \<and>
      (\<forall>ok \<in> set (butlast oks). ok) \<and>
      (\<not> a \<longrightarrow> oks = [] \<and> \<not> fst (read_sector_loop d u first i False s)) \<and>
      (a \<longrightarrow> fst (read_sector_loop d u first i False s) =
         (bTolerateFailures s \<or> (\<forall>ok \<in> set oks. ok))) \<and>
      (a \<and> (\<forall>ok \<in> set oks. ok) \<longrightarrow> length oks = length (blocks_down first i)))"

text \<open>
  For the write loop: \<open>propagates failed evs\<close> says that in \<open>evs\<close> every write
  command that comes after a failed write (or after the start, when \<open>failed\<close> holds)
  is for a trailer block. \<open>write_shape\<close> is the invariant of a pass of
  \<open>write_sector\<close>: with failures tolerated the calls propagate a failure in that sense,
  and without tolerance only the last call can be a failed write, and the pass returns
  false when there is one.
\<close>

fun flow_state :: "flow \<Rightarrow> state" where
  "flow_state (Return r s) = s"
| "flow_state (Continue bFailure s) = s"

fun propagates :: "bool \<Rightarrow> event list \<Rightarrow> bool" where
  "propagates failed [] = True"
| "propagates failed (e # es) =
     ((failed \<and> is_write e \<longrightarrow> is_trailer_write e) \<and>
      propagates (failed \<or> is_failed_write e) es)"

definition write_shape :: "bool \<Rightarrow> bool \<Rightarrow> event list \<Rightarrow> bool" where
  "write_shape tolerate result evs =
     ((tolerate \<longrightarrow> propagates False evs) \<and>
      (\<not> tolerate \<longrightarrow>
         (\<forall>e \<in> set (butlast evs). \<not> is_failed_write e) \<and>
         ((\<exists>e \<in> set evs. is_failed_write e) \<longrightarrow> \<not> result)))"

subsection \<open>Simulated tags for the concrete runs\<close>

text \<open>
  A reader that finds a tag with UID 04 12 34 56 and whose configuration calls succeed.
  \<open>sim_device key io_ok halt_res\<close> accepts an authentication exactly with the key
  \<open>key\<close>, answers the read or write of block \<open>blk\<close> as \<open>io_ok\<close> says, and
  returns \<open>halt_res\<close> for the 4-byte HALT frame. \<open>sim_state\<close> is the state before a
  run in guessing mode with key A, failures tolerated, on a card not flagged magic2, with
  blank images; the other states differ from it in one field.
\<close>

definition sim_target :: nfc_target where
  "sim_target = \<lparr>abtUid = [0x04, 0x12, 0x34, 0x56, 0, 0, 0, 0, 0, 0], szUidLen = 4\<rparr>"

definition sim_state :: state where
  "sim_state =
     \<lparr>trace = [], nt = sim_target,
      mp = \<lparr>abtKey = replicate 6 0, abtAuthUid = replicate 4 0, abtData = replicate 16 0\<rparr>,
      mtKeys = (\<lambda>blk. replicate 16 0), mtDump = (\<lambda>blk. replicate 16 0),
      abtHalt = [0x50, 0x00, 0x00, 0x00],
      bUseKeyA = True, bUseKeyFile = False, bTolerateFailures = True, magic2 = False\<rparr>"

definition sim_device :: "byte list \<Rightarrow> (mifare_cmd \<Rightarrow> nat \<Rightarrow> bool) \<Rightarrow> int \<Rightarrow> device" where
  "sim_device key io_ok halt_res =
     \<lparr>mifare_reply = (\<lambda>tr mc blk params.
        if mc = MC_AUTH_A \<or> mc = MC_AUTH_B then (take 6 params = key, [])
        else (io_ok mc blk, replicate 16 0xAA)),
      select_reply = (\<lambda>tr u. (1, sim_target)),
      property_reply = (\<lambda>tr p b. 0),
      bytes_reply = (\<lambda>tr tx. if length tx = 4 then halt_res else 1),
      bits_reply = (\<lambda>tr tx n. 8),
      crc_append = (\<lambda>abt n. take n abt @ [0x57, 0xcd] @ drop (n + 2) abt),
      fopen_reply = (\<lambda>tr. True),
      fwrite_reply = (\<lambda>tr. True)\<rparr>"

definition io_all_ok :: "mifare_cmd \<Rightarrow> nat \<Rightarrow> bool" where
  "io_all_ok mc blk = True"

definition no_key :: "byte list" where
  "no_key = []"

definition key_ff :: "byte list" where
  "key_ff = [0xff, 0xff, 0xff, 0xff, 0xff, 0xff]"

definition block_2_unreadable :: "mifare_cmd \<Rightarrow> nat \<Rightarrow> bool" where
  "block_2_unreadable mc blk = (\<not> (mc = MC_READ \<and> blk = 2))"

definition block_5_unwritable :: "mifare_cmd \<Rightarrow> nat \<Rightarrow> bool" where
  "block_5_unwritable mc blk = (\<not> (mc = MC_WRITE \<and> blk = 5))"

definition deaf_tag :: device where
  "deaf_tag = sim_device no_key io_all_ok 0"

definition ff_tag :: device where
  "ff_tag = sim_device key_ff io_all_ok 0"

definition halt_unanswered :: device where
  "halt_unanswered = sim_device no_key io_all_ok (- 1)"

definition scratched_tag :: device where
  "scratched_tag = sim_device key_ff block_2_unreadable 0"

definition worn_tag :: device where
  "worn_tag = sim_device key_ff block_5_unwritable 0"





definition keyfile_state :: state where
  "keyfile_state = sim_state\<lparr>bUseKeyFile := True\<rparr>"

definition strict_state :: state where
  "strict_state = sim_state\<lparr>bTolerateFailures := False\<rparr>"

definition block0_bcc60 :: mifare_classic_block where
  "block0_bcc60 = [0x04, 0x12, 0x34, 0x56, 0x60, 0x08, 0x04, 0x00,
                   0x00, 0x00, 0x00, 0x00, 0x00, 0x00, 0x00, 0x00]"

definition block0_bcc74 :: mifare_classic_block where
  "block0_bcc74 = [0x04, 0x12, 0x34, 0x56, 0x74, 0x08, 0x04, 0x00,
                   0x00, 0x00, 0x00, 0x00, 0x00, 0x00, 0x00, 0x00]"

definition bcc60_state :: state where
  "bcc60_state = sim_state\<lparr>mtDump := (mtDump sim_state)(0 := block0_bcc60)\<rparr>"

definition bcc74_state :: state where
  "bcc74_state = sim_state\<lparr>mtDump := (mtDump sim_state)(0 := block0_bcc74)\<rparr>"

section \<open>Properties\<close>

subsection \<open>Sector layout\<close>

lemma unat_mod4: "unat ((w :: uint32) mod 4) = unat w mod 4"
  by (simp add: unat_mod)

lemma unat_mod16: "unat ((w :: uint32) mod 16) = unat w mod 16"
  by (simp add: unat_mod)

lemma unat_succ32: "unat ((w :: uint32) + 1) = (unat w + 1) mod 4294967296"
  by (simp add: unat_word_ariths)

lemma mod_wrap4: "(n :: nat) mod 4294967296 mod 4 = n mod 4"
proof -
  have "(4::nat) dvd 4294967296" by simp
  then show ?thesis by (rule mod_mod_cancel)
qed

lemma mod_wrap16: "(n :: nat) mod 4294967296 mod 16 = n mod 16"
proof -
  have "(16::nat) dvd 4294967296" by simp
  then show ?thesis by (rule mod_mod_cancel)
qed

lemma is_first_block_unat:
  "is_first_block b = (if unat b < 128 then unat b mod 4 = 0 else unat b mod 16 = 0)"
proof -
  have lt: "(b < 128) = (unat b < 128)"
    by (simp add: word_less_nat_alt)
  have m4: "(b mod 4 = 0) = (unat b mod 4 = 0)"
    using unat_eq_0 [of "b mod 4"] by (simp only: unat_mod4)
  have m16: "(b mod 16 = 0) = (unat b mod 16 = 0)"
    using unat_eq_0 [of "b mod 16"] by (simp only: unat_mod16)
  show ?thesis
    unfolding is_first_block_def by (simp only: lt m4 m16)
qed

lemma is_trailer_block_unat:
  "is_trailer_block b =
     (if unat b < 128 then (unat b + 1) mod 4 = 0 else (unat b + 1) mod 16 = 0)"
proof -
  have lt: "(b < 128) = (unat b < 128)"
    by (simp add: word_less_nat_alt)
  have m4: "((b + 1) mod 4 = 0) = ((unat b + 1) mod 4 = 0)"
    using unat_eq_0 [of "(b + 1) mod 4"] by (simp only: unat_mod4 unat_succ32 mod_wrap4)
  have m16: "((b + 1) mod 16 = 0) = ((unat b + 1) mod 16 = 0)"
    using unat_eq_0 [of "(b + 1) mod 16"] by (simp only: unat_mod16 unat_succ32 mod_wrap16)
  show ?thesis
    unfolding is_trailer_block_def by (simp only: lt m4 m16)
qed

lemma trailer4_nat: "(n :: nat) + (3 - n mod 4) = 4 * (n div 4) + 3"
proof -
  have "n mod 4 \<le> 3" by simp
  moreover have "n = 4 * (n div 4) + n mod 4" by simp
  ultimately show ?thesis by linarith
qed

lemma trailer16_nat: "(n :: nat) + (15 - n mod 16) = 16 * (n div 16) + 15"
proof -
  have "n mod 16 \<le> 15" by simp
  moreover have "n = 16 * (n div 16) + n mod 16" by simp
  ultimately show ?thesis by linarith
qed

lemma unat_get_trailer_block:
  "unat (get_trailer_block f) =
     (if unat f < 128 then 4 * (unat f div 4) + 3 else 16 * (unat f div 16) + 15)"
proof -
  have bound: "unat f < 4294967296"
    using unsigned_less [of f] by simp
  have lt: "(f < 128) = (unat f < 128)"
    by (simp add: word_less_nat_alt)
  have s4: "unat (3 - f mod 4) = 3 - unat f mod 4"
  proof -
    have "unat f mod 4 \<le> 3" by simp
    then have "f mod 4 \<le> 3"
      by (simp add: word_le_nat_alt unat_mod4)
    then have "unat (3 - f mod 4) = unat (3 :: uint32) - unat (f mod 4)"
      by (rule unat_sub)
    then show ?thesis by (simp add: unat_mod4)
  qed
  have s16: "unat (15 - f mod 16) = 15 - unat f mod 16"
  proof -
    have "unat f mod 16 \<le> 15" by simp
    then have "f mod 16 \<le> 15"
      by (simp add: word_le_nat_alt unat_mod16)
    then have "unat (15 - f mod 16) = unat (15 :: uint32) - unat (f mod 16)"
      by (rule unat_sub)
    then show ?thesis by (simp add: unat_mod16)
  qed
  have a4: "unat (f + (3 - f mod 4)) = 4 * (unat f div 4) + 3"
  proof -
    have "unat (f + (3 - f mod 4)) = (unat f + (3 - unat f mod 4)) mod 4294967296"
      by (simp only: unat_word_ariths s4) simp
    also have "\<dots> = (4 * (unat f div 4) + 3) mod 4294967296"
      by (simp only: trailer4_nat)
    also have "\<dots> = 4 * (unat f div 4) + 3"
    proof -
      have "unat f div 4 < 1073741824" using bound by linarith
      then have "4 * (unat f div 4) + 3 < 4294967296" by linarith
      then show ?thesis by (rule mod_less)
    qed
    finally show ?thesis .
  qed
  have a16: "unat (f + (15 - f mod 16)) = 16 * (unat f div 16) + 15"
  proof -
    have "unat (f + (15 - f mod 16)) = (unat f + (15 - unat f mod 16)) mod 4294967296"
      by (simp only: unat_word_ariths s16) simp
    also have "\<dots> = (16 * (unat f div 16) + 15) mod 4294967296"
      by (simp only: trailer16_nat)
    also have "\<dots> = 16 * (unat f div 16) + 15"
    proof -
      have "unat f div 16 < 268435456" using bound by linarith
      then have "16 * (unat f div 16) + 15 < 4294967296" by linarith
      then show ?thesis by (rule mod_less)
    qed
    finally show ?thesis .
  qed
  show ?thesis
    unfolding get_trailer_block_def by (simp only: lt a4 a16 if_distrib [of unat])
qed

text \<open>
  C9. For a block index below 128, \<open>is_trailer_block\<close> is \<open>(b + 1) % 4 == 0\<close>, and
  from 128 on it is \<open>(b + 1) % 16 == 0\<close>, both read over the natural numbers. For
  every 32-bit block index \<open>f\<close>, \<open>get_trailer_block f\<close> is the last block of the
  sector that contains \<open>f\<close> (a run of 4 blocks below 128, of 16 blocks from 128 on),
  it is not before \<open>f\<close>, and \<open>is_trailer_block\<close> holds of it.
\<close>

theorem sector_layout_trailer:
  "(unat b < 128 \<longrightarrow> is_trailer_block b = ((unat b + 1) mod 4 = 0)) \<and>
   (128 \<le> unat b \<longrightarrow> is_trailer_block b = ((unat b + 1) mod 16 = 0)) \<and>
   is_trailer_block (get_trailer_block f) \<and>
   f \<le> get_trailer_block f \<and>
   (unat f < 128 \<longrightarrow> unat (get_trailer_block f) = 4 * (unat f div 4) + 3) \<and>
   (128 \<le> unat f \<longrightarrow> unat (get_trailer_block f) = 16 * (unat f div 16) + 15)"
proof -
  have le: "f \<le> get_trailer_block f"
  proof -
    have "unat f \<le> 4 * (unat f div 4) + 3" by linarith
    moreover have "unat f \<le> 16 * (unat f div 16) + 15" by linarith
    ultimately show ?thesis
      by (simp add: word_le_nat_alt unat_get_trailer_block)
  qed
  have tr: "is_trailer_block (get_trailer_block f)"
  proof (cases "unat f < 128")
    case True
    then have t: "unat (get_trailer_block f) = 4 * (unat f div 4) + 3"
      by (simp add: unat_get_trailer_block)
    have "unat f div 4 < 32" using True by linarith
    then have "unat (get_trailer_block f) < 128"
      using t by linarith
    moreover have "(unat (get_trailer_block f) + 1) mod 4 = 0"
      using t by presburger
    ultimately show ?thesis
      by (simp add: is_trailer_block_unat [of "get_trailer_block f"])
  next
    case False
    then have t: "unat (get_trailer_block f) = 16 * (unat f div 16) + 15"
      by (simp add: unat_get_trailer_block)
    have "8 \<le> unat f div 16" using False by linarith
    then have "\<not> unat (get_trailer_block f) < 128"
      using t by linarith
    moreover have "(unat (get_trailer_block f) + 1) mod 16 = 0"
      using t by presburger
    ultimately show ?thesis
      by (simp add: is_trailer_block_unat [of "get_trailer_block f"])
  qed
  show ?thesis
    using le tr by (simp add: is_trailer_block_unat unat_get_trailer_block)
qed

theorem sector_layout_trailer_witness:
  "is_trailer_block (7 :: uint32) = ((unat (7 :: uint32) + 1) mod 4 = 0) \<and>
   is_trailer_block (143 :: uint32) = ((unat (143 :: uint32) + 1) mod 16 = 0) \<and>
   is_trailer_block (get_trailer_block 4) \<and>
   unat (get_trailer_block 4) = 7 \<and> unat (get_trailer_block 130) = 143"
  using sector_layout_trailer [of 7 4] sector_layout_trailer [of 143 130]
  by simp

subsection \<open>Authentication\<close>

lemma num_keys_9: "num_keys = 9"
  by (simp add: num_keys_def keys_def)

lemma mifare_cmd_fields [simp]:
  "trace (snd (nfc_initiator_mifare_cmd d mc b s)) =
     trace s @ [MifareCmd mc b (mifare_cmd_params mc (mp s)) (fst (nfc_initiator_mifare_cmd d mc b s))]"
  "fst (nfc_initiator_mifare_cmd d mc b s) = fst (mifare_reply d (trace s) mc b (mifare_cmd_params mc (mp s)))"
  "nt (snd (nfc_initiator_mifare_cmd d mc b s)) = nt s"
  "mtKeys (snd (nfc_initiator_mifare_cmd d mc b s)) = mtKeys s"
  "mtDump (snd (nfc_initiator_mifare_cmd d mc b s)) = mtDump s"
  "abtHalt (snd (nfc_initiator_mifare_cmd d mc b s)) = abtHalt s"
  "bUseKeyA (snd (nfc_initiator_mifare_cmd d mc b s)) = bUseKeyA s"
  "bUseKeyFile (snd (nfc_initiator_mifare_cmd d mc b s)) = bUseKeyFile s"
  "bTolerateFailures (snd (nfc_initiator_mifare_cmd d mc b s)) = bTolerateFailures s"
  "magic2 (snd (nfc_initiator_mifare_cmd d mc b s)) = magic2 s"
  "abtKey (mp (snd (nfc_initiator_mifare_cmd d mc b s))) = abtKey (mp s)"
  "abtAuthUid (mp (snd (nfc_initiator_mifare_cmd d mc b s))) = abtAuthUid (mp s)"
  by (simp_all add: nfc_initiator_mifare_cmd_def Let_def split: prod.split)

lemma mifare_cmd_auth_mp :
  "mc \<noteq> MC_READ \<Longrightarrow> mp (snd (nfc_initiator_mifare_cmd d mc b s)) = mp s"
  by (simp add: nfc_initiator_mifare_cmd_def Let_def split: prod.split)

lemma select_fields [simp]:
  "trace (snd (nfc_initiator_select_passive_target d u s)) = trace s @ [SelectPassiveTarget u]"
  "nt (snd (nfc_initiator_select_passive_target d u s)) = nt s"
  "mp (snd (nfc_initiator_select_passive_target d u s)) = mp s"
  "mtKeys (snd (nfc_initiator_select_passive_target d u s)) = mtKeys s"
  "mtDump (snd (nfc_initiator_select_passive_target d u s)) = mtDump s"
  "abtHalt (snd (nfc_initiator_select_passive_target d u s)) = abtHalt s"
  "bUseKeyA (snd (nfc_initiator_select_passive_target d u s)) = bUseKeyA s"
  "bUseKeyFile (snd (nfc_initiator_select_passive_target d u s)) = bUseKeyFile s"
  "bTolerateFailures (snd (nfc_initiator_select_passive_target d u s)) = bTolerateFailures s"
  "magic2 (snd (nfc_initiator_select_passive_target d u s)) = magic2 s"
  by (simp_all add: nfc_initiator_select_passive_target_def Let_def split: prod.split)

lemma mifare_cmd_mtKeysD:
  "nfc_initiator_mifare_cmd d mc b s = (ok, s') \<Longrightarrow> mtKeys s' = mtKeys s"
  using mifare_cmd_fields(4) [of d mc b s] by simp

declare authenticate_guess.simps [simp del]

lemma authenticate_guess_mtKeys:
  "authenticate_guess d mc uiBlock key_index s = (False, s') \<Longrightarrow> mtKeys s' = mtKeys s"
proof (induction d mc uiBlock key_index s rule: authenticate_guess.induct)
  case (1 d mc uiBlock key_index s)
  show ?case
  proof (cases "key_index < num_keys")
    case False
    with "1.prems" show ?thesis
      by (simp add: authenticate_guess.simps [of d mc uiBlock key_index s])
  next
    case True
    define s1 where "s1 = s\<lparr>mp := (mp s)\<lparr>abtKey := candidate_key key_index\<rparr>\<rparr>"
    obtain ok s2 where cmd: "nfc_initiator_mifare_cmd d mc (unat uiBlock) s1 = (ok, s2)"
      by (cases "nfc_initiator_mifare_cmd d mc (unat uiBlock) s1")
    define s3 where "s3 = snd (nfc_initiator_select_passive_target d
                           (take (szUidLen (nt s2)) (abtUid (nt s2))) s2)"
    have unfold: "authenticate_guess d mc uiBlock key_index s =
        (if ok then (True, remember_key uiBlock s2)
         else authenticate_guess d mc uiBlock (key_index + 1) s3)"
      using True cmd
      by (simp add: authenticate_guess.simps [of d mc uiBlock key_index s] Let_def s1_def s3_def)
    have not_ok: "\<not> ok"
      using "1.prems" unfold by (cases ok) simp_all
    with "1.prems" unfold have rec: "authenticate_guess d mc uiBlock (key_index + 1) s3 = (False, s')"
      by simp
    have "mtKeys s' = mtKeys s3"
      using "1.IH" [OF True s1_def cmd [symmetric] refl not_ok] rec
      by (simp add: s3_def)
    also have "mtKeys s3 = mtKeys s2"
      by (simp add: s3_def)
    also have "mtKeys s2 = mtKeys s1"
      using mifare_cmd_fields(4) [of d mc "unat uiBlock" s1] cmd by simp
    also have "mtKeys s1 = mtKeys s"
      by (simp add: s1_def)
    finally show ?thesis .
  qed
qed

text \<open>
  C10. Whenever \<open>authenticate\<close> returns false, in key-file mode or after the whole
  dictionary was tried, the key table \<open>mtKeys\<close> is what it was before the call.
\<close>

theorem authenticate_failure_keeps_keys:
  "authenticate d uiBlock s = (False, s') \<Longrightarrow> mtKeys s' = mtKeys s"
proof (cases "bUseKeyFile s")
  case True
  assume a: "authenticate d uiBlock s = (False, s')"
  show ?thesis
    using a True
    by (auto simp: authenticate_def Let_def split: prod.splits if_splits dest!: mifare_cmd_mtKeysD)
next
  case False
  assume a: "authenticate d uiBlock s = (False, s')"
  show ?thesis
    using a False authenticate_guess_mtKeys
    by (fastforce simp: authenticate_def Let_def split: prod.splits if_splits)
qed

lemma mifare_cmd_not_read:
  "mc \<noteq> MC_READ \<Longrightarrow>
   nfc_initiator_mifare_cmd d mc b s =
     (fst (mifare_reply d (trace s) mc b (mifare_cmd_params mc (mp s))),
      s\<lparr>trace := trace s @ [MifareCmd mc b (mifare_cmd_params mc (mp s))
                 (fst (mifare_reply d (trace s) mc b (mifare_cmd_params mc (mp s))))]\<rparr>)"
  by (simp add: nfc_initiator_mifare_cmd_def Let_def split: prod.split)

lemma select_state:
  "snd (nfc_initiator_select_passive_target d u s) = s\<lparr>trace := trace s @ [SelectPassiveTarget u]\<rparr>"
  by (simp add: nfc_initiator_select_passive_target_def Let_def split: prod.split)

lemma auth_params:
  "mc = MC_AUTH_A \<or> mc = MC_AUTH_B \<Longrightarrow> mifare_cmd_params mc p = abtKey p @ abtAuthUid p"
  by (auto simp: mifare_cmd_params_def)

lemma rejected_calls_step:
  "i < k \<Longrightarrow> rejected_calls mc blk uid4 uid i k =
     [MifareCmd mc blk (candidate_key i @ uid4) False, SelectPassiveTarget uid] @
     rejected_calls mc blk uid4 uid (Suc i) k"
  by (simp add: rejected_calls_def upt_conv_Cons)

lemma rejected_calls_empty: "rejected_calls mc blk uid4 uid k k = []"
  by (simp add: rejected_calls_def)


lemma failed_attempts_empty: "failed_attempts s b k k = []"
  by (simp add: failed_attempts_def rejected_calls_empty)

text \<open>
  One turn of the guessing loop on a candidate that the tag rejects at the history
  reached: the attempt, the select, and the loop goes on with the next candidate.
\<close>

lemma guess_rejected_step:
  assumes "mc = MC_AUTH_A \<or> mc = MC_AUTH_B" and "i < num_keys"
    and "\<not> fst (mifare_reply d (trace s) mc (unat b) (candidate_key i @ abtAuthUid (mp s)))"
  shows "authenticate_guess d mc b i s =
     authenticate_guess d mc b (Suc i)
       (s\<lparr>mp := (mp s)\<lparr>abtKey := candidate_key i\<rparr>,
          trace := trace s @
            [MifareCmd mc (unat b) (candidate_key i @ abtAuthUid (mp s)) False,
             SelectPassiveTarget (take (szUidLen (nt s)) (abtUid (nt s)))]\<rparr>)"
proof -
  have nr: "mc \<noteq> MC_READ" using assms(1) by auto
  show ?thesis
    using assms nr
    by (simp add: authenticate_guess.simps [of d mc b i s] Let_def mifare_cmd_not_read
        auth_params select_state)
qed


lemma guess_exhaust:
  assumes "mc = MC_AUTH_A \<or> mc = MC_AUTH_B"
    and "i \<le> num_keys"
    and "\<forall>j. i \<le> j \<and> j < num_keys \<longrightarrow>
           \<not> fst (mifare_reply d
                 (trace s @ rejected_calls mc (unat b) (abtAuthUid (mp s))
                              (take (szUidLen (nt s)) (abtUid (nt s))) i j)
                 mc (unat b) (candidate_key j @ abtAuthUid (mp s)))"
  shows "fst (authenticate_guess d mc b i s) = False \<and>
     trace (snd (authenticate_guess d mc b i s)) = trace s @
       rejected_calls mc (unat b) (abtAuthUid (mp s))
         (take (szUidLen (nt s)) (abtUid (nt s))) i num_keys"
  using assms
proof (induction "num_keys - i" arbitrary: i s)
  case 0
  then have "i = num_keys" by simp
  then show ?case
    by (simp add: authenticate_guess.simps [of d mc b num_keys s] rejected_calls_empty)
next
  case (Suc n)
  then have ik: "i < num_keys" by simp
  define s3 where "s3 = s\<lparr>mp := (mp s)\<lparr>abtKey := candidate_key i\<rparr>,
       trace := trace s @
       [MifareCmd mc (unat b) (candidate_key i @ abtAuthUid (mp s)) False,
        SelectPassiveTarget (take (szUidLen (nt s)) (abtUid (nt s)))]\<rparr>"
  have rej: "\<not> fst (mifare_reply d (trace s) mc (unat b) (candidate_key i @ abtAuthUid (mp s)))"
    using Suc.prems(3) ik by (auto simp: rejected_calls_empty dest: spec [of _ i])
  have unfold: "authenticate_guess d mc b i s = authenticate_guess d mc b (Suc i) s3"
    unfolding s3_def by (rule guess_rejected_step [OF Suc.prems(1) ik rej])
  have n: "n = num_keys - Suc i" using Suc.hyps(2) by simp
  have hist: "trace s3 @ rejected_calls mc (unat b) (abtAuthUid (mp s3))
                 (take (szUidLen (nt s3)) (abtUid (nt s3))) (Suc i) j =
              trace s @ rejected_calls mc (unat b) (abtAuthUid (mp s))
                 (take (szUidLen (nt s)) (abtUid (nt s))) i j" if "i < j" for j
    using that by (simp add: s3_def rejected_calls_step [of i j])
  have rest: "\<forall>j. Suc i \<le> j \<and> j < num_keys \<longrightarrow>
           \<not> fst (mifare_reply d
                 (trace s3 @ rejected_calls mc (unat b) (abtAuthUid (mp s3))
                              (take (szUidLen (nt s3)) (abtUid (nt s3))) (Suc i) j)
                 mc (unat b) (candidate_key j @ abtAuthUid (mp s3)))"
  proof (intro allI impI)
    fix j assume j: "Suc i \<le> j \<and> j < num_keys"
    then have ij: "i < j" by simp
    have "abtAuthUid (mp s3) = abtAuthUid (mp s)" by (simp add: s3_def)
    then show "\<not> fst (mifare_reply d
                 (trace s3 @ rejected_calls mc (unat b) (abtAuthUid (mp s3))
                              (take (szUidLen (nt s3)) (abtUid (nt s3))) (Suc i) j)
                 mc (unat b) (candidate_key j @ abtAuthUid (mp s3)))"
      using Suc.prems(3) j hist [OF ij] by simp
  qed
  have le: "Suc i \<le> num_keys" using ik by simp
  have tail: "trace s3 @ rejected_calls mc (unat b) (abtAuthUid (mp s3))
                 (take (szUidLen (nt s3)) (abtUid (nt s3))) (Suc i) num_keys =
              trace s @ rejected_calls mc (unat b) (abtAuthUid (mp s))
                 (take (szUidLen (nt s)) (abtUid (nt s))) i num_keys"
    by (rule hist [OF ik])
  show ?case
    unfolding unfold
    using Suc.hyps(1) [OF n Suc.prems(1) le rest] tail
    by simp
qed


lemma new_events_append: "trace s' = trace s @ evs \<Longrightarrow> new_events s s' = evs"
  by (simp add: new_events_def)





lemma authenticate_keyfile:
  "bUseKeyFile s \<Longrightarrow>
   fst (authenticate d b s) =
     accepts d s b
       (if bUseKeyA s then abtKeyA (mtKeys s (unat (get_trailer_block b)))
        else abtKeyB (mtKeys s (unat (get_trailer_block b)))) (trace s)"
  by (simp add: authenticate_def Let_def accepts_def auth_cmd_def auth_uid_def
      mifare_cmd_not_read mifare_cmd_params_def)

text \<open>
  Both ways of failing on a tag that accepts no key: key-file mode, and guessing mode
  after the whole dictionary.
\<close>

theorem authenticate_failure_keeps_keys_witness:
  "\<not> fst (authenticate deaf_tag 3 keyfile_state) \<and>
   mtKeys (snd (authenticate deaf_tag 3 keyfile_state)) = mtKeys keyfile_state \<and>
   \<not> fst (authenticate deaf_tag 3 sim_state) \<and>
   mtKeys (snd (authenticate deaf_tag 3 sim_state)) = mtKeys sim_state"
proof -
  have f1: "\<not> fst (authenticate deaf_tag 3 keyfile_state)"
    by (simp add: authenticate_keyfile accepts_def auth_cmd_def keyfile_state_def sim_state_def
        deaf_tag_def sim_device_def no_key_def abtKeyA_def)
  have "\<forall>j. 0 \<le> j \<and> j < num_keys \<longrightarrow>
      (\<forall>tr. \<not> fst (mifare_reply deaf_tag tr MC_AUTH_A (unat (3 :: uint32))
         (candidate_key j @ abtAuthUid (mp (sim_state\<lparr>mp := (mp sim_state)\<lparr>abtAuthUid :=
             take 4 (drop (szUidLen (nt sim_state) - 4) (abtUid (nt sim_state)))\<rparr>\<rparr>)))))"
    by (simp add: deaf_tag_def sim_device_def no_key_def sim_state_def sim_target_def)
  then have f2: "\<not> fst (authenticate deaf_tag 3 sim_state)"
    using guess_exhaust [where mc = MC_AUTH_A and i = 0 and d = deaf_tag and b = 3]
    by (simp add: authenticate_def Let_def sim_state_def)
  show ?thesis
    using f1 f2
      authenticate_failure_keeps_keys [of deaf_tag 3 keyfile_state "snd (authenticate deaf_tag 3 keyfile_state)"]
      authenticate_failure_keeps_keys [of deaf_tag 3 sim_state "snd (authenticate deaf_tag 3 sim_state)"]
    by (simp add: prod_eq_iff)
qed

subsection \<open>unlock_card\<close>

lemma unlock_card_run:
  assumes "\<not> magic2 s"
  shows "\<exists>r1 r2 r3 r4 r5 r6 r7.
     trace (snd (unlock_card d s)) =
       trace s @ take (unlock_stop r1 r2 r4 r5 r6)
         (unlock_calls (take 4 (crc_append d (abtHalt s) 2)) r1 r2 r3 r4 r5 r6 r7) \<and>
     fst (unlock_card d s) =
       (0 \<le> r1 \<and> 0 \<le> r2 \<and> 0 \<le> r4 \<and> 0 \<le> r5 \<and> 0 \<le> r6 \<and> 0 \<le> r7) \<and>
     bTolerateFailures (snd (unlock_card d s)) = bTolerateFailures s \<and>
     magic2 (snd (unlock_card d s)) = magic2 s \<and>
     mtDump (snd (unlock_card d s)) = mtDump s \<and>
     mtKeys (snd (unlock_card d s)) = mtKeys s"
proof -
  note False = assms
  define halt where "halt = take 4 (crc_append d (abtHalt s) 2)"
  define r1 where "r1 = property_reply d (trace s) NP_HANDLE_CRC False"
  define s1 where "s1 = s\<lparr>trace := trace s @ [SetPropertyBool NP_HANDLE_CRC False r1]\<rparr>"
  define r2 where "r2 = property_reply d (trace s1) NP_EASY_FRAMING False"
  define s2 where "s2 = s1\<lparr>trace := trace s1 @ [SetPropertyBool NP_EASY_FRAMING False r2]\<rparr>"
  define s2' where "s2' = s2\<lparr>abtHalt := crc_append d (abtHalt s2) 2\<rparr>"
  define r3 where "r3 = bytes_reply d (trace s2') halt"
  define s3 where "s3 = s2'\<lparr>trace := trace s2' @ [TransceiveBytes halt r3]\<rparr>"
  define r4 where "r4 = bits_reply d (trace s3) abtUnlock1 7"
  define s4 where "s4 = s3\<lparr>trace := trace s3 @ [TransceiveBits abtUnlock1 7 r4]\<rparr>"
  define r5 where "r5 = bytes_reply d (trace s4) abtUnlock2"
  define s5 where "s5 = s4\<lparr>trace := trace s4 @ [TransceiveBytes abtUnlock2 r5]\<rparr>"
  define r6 where "r6 = property_reply d (trace s5) NP_HANDLE_CRC True"
  define s6 where "s6 = s5\<lparr>trace := trace s5 @ [SetPropertyBool NP_HANDLE_CRC True r6]\<rparr>"
  define r7 where "r7 = property_reply d (trace s6) NP_EASY_FRAMING True"
  define s7 where "s7 = s6\<lparr>trace := trace s6 @ [SetPropertyBool NP_EASY_FRAMING True r7]\<rparr>"
  have halt_s2: "take 4 (abtHalt s2') = halt"
    by (simp add: s2'_def s2_def s1_def halt_def)
  have p1: "nfc_device_set_property_bool d NP_HANDLE_CRC False s = (r1, s1)"
    by (simp add: nfc_device_set_property_bool_def Let_def r1_def s1_def)
  have p2: "nfc_device_set_property_bool d NP_EASY_FRAMING False s1 = (r2, s2)"
    by (simp add: nfc_device_set_property_bool_def Let_def r2_def s2_def)
  have p3: "transmit_bytes d halt s2' = (\<not> r3 < 0, s3)"
    by (simp add: transmit_bytes_def Let_def r3_def s3_def)
  have p4: "transmit_bits d abtUnlock1 7 s3 = (\<not> r4 < 0, s4)"
    by (simp add: transmit_bits_def Let_def r4_def s4_def)
  have p5: "transmit_bytes d (take (Suc 0) abtUnlock2) s4 = (\<not> r5 < 0, s5)"
    by (simp add: transmit_bytes_def Let_def r5_def s5_def abtUnlock2_def)
  have p6: "nfc_device_set_property_bool d NP_HANDLE_CRC True s5 = (r6, s6)"
    by (simp add: nfc_device_set_property_bool_def Let_def r6_def s6_def)
  have p7: "nfc_device_set_property_bool d NP_EASY_FRAMING True s6 = (r7, s7)"
    by (simp add: nfc_device_set_property_bool_def Let_def r7_def s7_def)
  have t1: "trace s1 = trace s @ take 1 (unlock_calls halt r1 r2 r3 r4 r5 r6 r7)"
    by (simp add: s1_def unlock_calls_def)
  have t2: "trace s2 = trace s @ take 2 (unlock_calls halt r1 r2 r3 r4 r5 r6 r7)"
    by (simp add: s2_def s1_def unlock_calls_def)
  have t4: "trace s4 = trace s @ take 4 (unlock_calls halt r1 r2 r3 r4 r5 r6 r7)"
    by (simp add: s4_def s3_def s2'_def s2_def s1_def unlock_calls_def)
  have t5: "trace s5 = trace s @ take 5 (unlock_calls halt r1 r2 r3 r4 r5 r6 r7)"
    by (simp add: s5_def t4 unlock_calls_def)
  have t6: "trace s6 = trace s @ take 6 (unlock_calls halt r1 r2 r3 r4 r5 r6 r7)"
    by (simp add: s6_def t5 unlock_calls_def)
  have t7: "trace s7 = trace s @ take 7 (unlock_calls halt r1 r2 r3 r4 r5 r6 r7)"
    by (simp add: s7_def t6 unlock_calls_def)
  have run: "unlock_card d s =
      (if r1 < 0 then (False, s1) else if r2 < 0 then (False, s2)
       else if r4 < 0 then (False, s4) else if r5 < 0 then (False, s5)
       else if r6 < 0 then (False, s6) else if r7 < 0 then (False, s7) else (True, s7))"
    using False
    by (simp add: unlock_card_def p1 p2 p3 p4 p5 p6 p7 Let_def halt_s2 s2'_def [symmetric])
  have fr: "bTolerateFailures s1 = bTolerateFailures s" "magic2 s1 = magic2 s"
    "mtDump s1 = mtDump s" "mtKeys s1 = mtKeys s"
    "bTolerateFailures s2 = bTolerateFailures s" "magic2 s2 = magic2 s"
    "mtDump s2 = mtDump s" "mtKeys s2 = mtKeys s"
    "bTolerateFailures s4 = bTolerateFailures s" "magic2 s4 = magic2 s"
    "mtDump s4 = mtDump s" "mtKeys s4 = mtKeys s"
    by (simp_all add: s4_def s3_def s2'_def s2_def s1_def)
  have fr': "bTolerateFailures s5 = bTolerateFailures s" "magic2 s5 = magic2 s"
    "mtDump s5 = mtDump s" "mtKeys s5 = mtKeys s"
    "bTolerateFailures s6 = bTolerateFailures s" "magic2 s6 = magic2 s"
    "mtDump s6 = mtDump s" "mtKeys s6 = mtKeys s"
    "bTolerateFailures s7 = bTolerateFailures s" "magic2 s7 = magic2 s"
    "mtDump s7 = mtDump s" "mtKeys s7 = mtKeys s"
    by (simp_all add: s7_def s6_def s5_def fr)
  have "trace (snd (unlock_card d s)) =
           trace s @ take (unlock_stop r1 r2 r4 r5 r6) (unlock_calls halt r1 r2 r3 r4 r5 r6 r7) \<and>
         fst (unlock_card d s) =
           (0 \<le> r1 \<and> 0 \<le> r2 \<and> 0 \<le> r4 \<and> 0 \<le> r5 \<and> 0 \<le> r6 \<and> 0 \<le> r7) \<and>
     bTolerateFailures (snd (unlock_card d s)) = bTolerateFailures s \<and>
     magic2 (snd (unlock_card d s)) = magic2 s \<and>
     mtDump (snd (unlock_card d s)) = mtDump s \<and>
     mtKeys (snd (unlock_card d s)) = mtKeys s"
    by (simp add: run unlock_stop_def t1 t2 t4 t5 t6 t7 fr fr')
  then show ?thesis
    unfolding halt_def by blast
qed

text \<open>
  C5, as amended. On a card flagged magic2, \<open>unlock_card\<close> returns false and calls
  nothing. Otherwise its calls are the sequence: CRC handling off, easy framing off, the
  HALT frame, the 7-bit unlock command, the 1-byte unlock command, CRC handling on, easy
  framing on; the sequence stops right after the first call other than the HALT
  transceive whose result is negative, and \<open>unlock_card\<close> returns true exactly when
  the four property settings and the two unlock transceives all succeeded. The result
  \<open>r3\<close> of the HALT transceive has no influence.
\<close>

theorem unlock_card_result:
  "(magic2 s \<longrightarrow> unlock_card d s = (False, s)) \<and>
   (\<not> magic2 s \<longrightarrow>
      (\<exists>r1 r2 r3 r4 r5 r6 r7.
         trace (snd (unlock_card d s)) =
           trace s @ take (unlock_stop r1 r2 r4 r5 r6)
             (unlock_calls (take 4 (crc_append d (abtHalt s) 2)) r1 r2 r3 r4 r5 r6 r7) \<and>
         fst (unlock_card d s) =
           (0 \<le> r1 \<and> 0 \<le> r2 \<and> 0 \<le> r4 \<and> 0 \<le> r5 \<and> 0 \<le> r6 \<and> 0 \<le> r7)))"
proof (cases "magic2 s")
  case True
  then show ?thesis by (simp add: unlock_card_def)
next
  case False
  show ?thesis
    using False unlock_card_run [OF False, of d] by blast
qed

theorem unlock_card_result_witness:
  "\<not> magic2 sim_state \<and>
   (\<exists>r1 r2 r3 r4 r5 r6 r7.
      trace (snd (unlock_card deaf_tag sim_state)) =
        trace sim_state @ take (unlock_stop r1 r2 r4 r5 r6)
          (unlock_calls [0x50, 0x00, 0x57, 0xcd] r1 r2 r3 r4 r5 r6 r7) \<and>
      fst (unlock_card deaf_tag sim_state) =
        (0 \<le> r1 \<and> 0 \<le> r2 \<and> 0 \<le> r4 \<and> 0 \<le> r5 \<and> 0 \<le> r6 \<and> 0 \<le> r7))"
  using unlock_card_result [of sim_state deaf_tag]
  by (simp add: sim_state_def deaf_tag_def sim_device_def)

lemma sim_unlock:
  "unlock_card (sim_device key io halt_res) sim_state =
     (True, sim_state\<lparr>trace :=
        [SetPropertyBool NP_HANDLE_CRC False 0, SetPropertyBool NP_EASY_FRAMING False 0,
         TransceiveBytes [0x50, 0x00, 0x57, 0xcd] halt_res, TransceiveBits [0x40] 7 8,
         TransceiveBytes [0x43] 1, SetPropertyBool NP_HANDLE_CRC True 0,
         SetPropertyBool NP_EASY_FRAMING True 0],
        abtHalt := [0x50, 0x00, 0x57, 0xcd]\<rparr>)"
  by (simp add: unlock_card_def nfc_device_set_property_bool_def transmit_bytes_def
      transmit_bits_def Let_def sim_state_def sim_device_def abtUnlock1_def abtUnlock2_def)

text \<open>
  The claim as stated fails: on a reader that reports an error for the HALT frame (a
  halted tag does not answer) and succeeds otherwise, \<open>unlock_card\<close> goes through the
  whole sequence and returns true.
\<close>

theorem unlock_card_halt_counterexample:
  "fst (unlock_card halt_unanswered sim_state) \<and>
   trace (snd (unlock_card halt_unanswered sim_state)) =
     [SetPropertyBool NP_HANDLE_CRC False 0, SetPropertyBool NP_EASY_FRAMING False 0,
      TransceiveBytes [0x50, 0x00, 0x57, 0xcd] (- 1), TransceiveBits [0x40] 7 8,
      TransceiveBytes [0x43] 1, SetPropertyBool NP_HANDLE_CRC True 0,
      SetPropertyBool NP_EASY_FRAMING True 0] \<and>
   call_failed (TransceiveBytes [0x50, 0x00, 0x57, 0xcd] (- 1))"
  by (simp add: halt_unanswered_def sim_unlock)

subsection \<open>read_sector\<close>

lemma mifare_cmd_readD:
  "nfc_initiator_mifare_cmd d MC_READ b s = (ok, s') \<Longrightarrow>
     ok = fst (mifare_reply d (trace s) MC_READ b []) \<and>
     trace s' = trace s @ [MifareCmd MC_READ b [] ok] \<and>
     bTolerateFailures s' = bTolerateFailures s \<and> magic2 s' = magic2 s \<and>
     bUseKeyFile s' = bUseKeyFile s \<and> bUseKeyA s' = bUseKeyA s \<and>
     mtKeys s' = mtKeys s \<and> mtDump s' = mtDump s \<and> nt s' = nt s"
  by (auto simp: nfc_initiator_mifare_cmd_def mifare_cmd_params_def Let_def split: prod.splits if_splits)

lemma finish_block_cases:
  "finish_block bF s = (if \<not> bTolerateFailures s \<and> bF then Return False s else Continue bF s)"
  by (simp add: finish_block_def)

lemma read_data_block:
  assumes "\<not> is_trailer_block (word_of_int i)"
  shows "\<exists>s'. bTolerateFailures s' = bTolerateFailures s \<and>
    (if bF then
       s' = s \<and> read_sector_block d u i bF s = (if bTolerateFailures s then Continue True s' else Return False s')
     else if fst (mifare_reply d (trace s) MC_READ (nat i) []) then
       trace s' = trace s @ [MifareCmd MC_READ (nat i) [] True] \<and>
       read_sector_block d u i bF s = Continue False s'
     else
       trace s' = trace s @ [MifareCmd MC_READ (nat i) [] False] \<and>
       read_sector_block d u i bF s = (if bTolerateFailures s then Continue True s' else Return False s'))"
proof (cases bF)
  case True
  then show ?thesis
    using assms by (simp add: read_sector_block_def finish_block_def)
next
  case False
  obtain ok s1 where c: "nfc_initiator_mifare_cmd d MC_READ (nat i) s = (ok, s1)"
    by (cases "nfc_initiator_mifare_cmd d MC_READ (nat i) s")
  note f = mifare_cmd_readD [OF c]
  show ?thesis
  proof (cases ok)
    case True
    let ?s' = "s1\<lparr>mtDump := (mtDump s1)(nat i :=
                    set_mbd_abtData (abtData (mp s1)) (mtDump s1 (nat i)))\<rparr>"
    have "read_sector_block d u i bF s = Continue False ?s'"
      using assms False c True by (simp add: read_sector_block_def finish_block_def)
    moreover have "trace ?s' = trace s @ [MifareCmd MC_READ (nat i) [] True]"
      using f True by simp
    moreover have "bTolerateFailures ?s' = bTolerateFailures s"
      using f by simp
    ultimately show ?thesis
      using False f True by (intro exI [of _ ?s']) simp
  next
    case nok: False
    have "read_sector_block d u i bF s =
        (if bTolerateFailures s then Continue True s1 else Return False s1)"
      using assms False c nok f by (simp add: read_sector_block_def finish_block_def)
    then show ?thesis
      using False f nok by (intro exI [of _ s1]) simp
  qed
qed

lemma blocks_down_empty: "i < first \<Longrightarrow> blocks_down first i = []"
  by (simp add: blocks_down_def)

lemma blocks_down_step: "first \<le> i \<Longrightarrow> blocks_down first i = nat i # blocks_down first (i - 1)"
  by (simp add: blocks_down_def upto_rec2)

lemma read_events_Cons:
  "read_events (b # blks) (ok # oks) = MifareCmd MC_READ b [] ok # read_events blks oks"
  by (simp add: read_events_def)

lemma read_events_Nil [simp]: "read_events blks [] = []"
  by (simp add: read_events_def)

declare read_sector_loop.simps [simp del]

lemma read_data_run:
  "(\<forall>j. first \<le> j \<and> j \<le> i \<longrightarrow> \<not> is_trailer_block (word_of_int j)) \<Longrightarrow>
   \<exists>oks. data_run d u first i bF s oks"
proof (induction d u first i bF s rule: read_sector_loop.induct)
  case (1 d u first i bF s)
  show ?case
  proof (cases "first \<le> i")
    case False
    then have "data_run d u first i bF s []"
      by (simp add: data_run_def read_sector_loop.simps [of d u first i bF s] blocks_down_empty)
    then show ?thesis ..
  next
    case True
    have nt: "\<not> is_trailer_block (word_of_int i)"
      using "1.prems" True by simp
    have rest: "\<forall>j. first \<le> j \<and> j \<le> i - 1 \<longrightarrow> \<not> is_trailer_block (word_of_int j)"
      using "1.prems" by simp
    obtain s' where tol: "bTolerateFailures s' = bTolerateFailures s"
      and step: "if bF then
         s' = s \<and> read_sector_block d u i bF s = (if bTolerateFailures s then Continue True s' else Return False s')
       else if fst (mifare_reply d (trace s) MC_READ (nat i) []) then
         trace s' = trace s @ [MifareCmd MC_READ (nat i) [] True] \<and>
         read_sector_block d u i bF s = Continue False s'
       else
         trace s' = trace s @ [MifareCmd MC_READ (nat i) [] False] \<and>
         read_sector_block d u i bF s = (if bTolerateFailures s then Continue True s' else Return False s')"
      using read_data_block [OF nt, of s bF d u] by blast
    note bd = blocks_down_step [OF True]
    show ?thesis
    proof (cases "read_sector_block d u i bF s")
      case (Return r s'')
      then have ret: "\<not> bTolerateFailures s" "s'' = s'" "r = False"
        and cause: "bF \<or> \<not> fst (mifare_reply d (trace s) MC_READ (nat i) [])"
        using step by (auto split: if_splits)
      have loop: "read_sector_loop d u first i bF s = (False, s')"
        using True Return ret by (simp add: read_sector_loop.simps [of d u first i bF s])
      show ?thesis
      proof (cases bF)
        case True
        then have "data_run d u first i bF s []"
          using loop ret tol step \<open>first \<le> i\<close> by (simp add: data_run_def)
        then show ?thesis ..
      next
        case False
        then have "data_run d u first i bF s [False]"
          using loop ret tol step cause \<open>first \<le> i\<close>
          by (simp add: data_run_def bd read_events_Cons)
        then show ?thesis ..
      qed
    next
      case (Continue bF' s'')
      then have cont: "s'' = s'"
        using step by (auto split: if_splits)
      have loop: "read_sector_loop d u first i bF s = read_sector_loop d u first (i - 1) bF' s'"
        using True Continue cont by (simp add: read_sector_loop.simps [of d u first i bF s])
      obtain oks' where ih: "data_run d u first (i - 1) bF' s' oks'"
        using "1.IH" [OF True Continue rest] cont by blast
      show ?thesis
      proof (cases bF)
        case True
        then have b': "bF'" "s' = s" "bTolerateFailures s"
          using step Continue by (auto split: if_splits)
        have "data_run d u first i bF s []"
          using ih loop True b' by (simp add: data_run_def)
        then show ?thesis ..
      next
        case False
        show ?thesis
        proof (cases "fst (mifare_reply d (trace s) MC_READ (nat i) [])")
          case True
          then have b': "\<not> bF'" and tr: "trace s' = trace s @ [MifareCmd MC_READ (nat i) [] True]"
            using step Continue False by (auto split: if_splits)
          have e: "i - 1 < first \<Longrightarrow> oks' = []"
            using ih by (simp add: data_run_def blocks_down_empty)
          have ih1: "trace (snd (read_sector_loop d u first (i - 1) bF' s')) =
              trace s' @ read_events (blocks_down first (i - 1)) oks'"
            and ih2: "length oks' \<le> length (blocks_down first (i - 1))"
            and ih4: "\<forall>ok \<in> set (butlast oks'). ok"
            and ih5: "(\<forall>ok \<in> set oks'. ok) \<longrightarrow> length oks' = length (blocks_down first (i - 1))"
            and ih6: "fst (read_sector_loop d u first (i - 1) bF' s') =
              (bTolerateFailures s' \<or> i - 1 < first \<or> (\<forall>ok \<in> set oks'. ok))"
            and ih7: "bTolerateFailures (snd (read_sector_loop d u first (i - 1) bF' s')) =
              bTolerateFailures s'"
            using ih b' unfolding data_run_def by blast+
          have g1: "trace (snd (read_sector_loop d u first i bF s)) =
              trace s @ read_events (blocks_down first i) (True # oks')"
            by (simp add: loop ih1 tr bd read_events_Cons)
          have g2: "length (True # oks') \<le> length (blocks_down first i)"
            using ih2 by (simp add: bd)
          have g4: "\<forall>ok \<in> set (butlast (True # oks')). ok"
          proof (cases "oks' = []")
            case True
            then show ?thesis by simp
          next
            case False
            have "butlast (True # oks') = True # butlast oks'"
              using False by simp
            then show ?thesis
              using ih4 by (metis set_ConsD)
          qed
          have g5: "(\<forall>ok \<in> set (True # oks'). ok) \<longrightarrow>
              length (True # oks') = length (blocks_down first i)"
            using ih5 by (simp add: bd)
          have g6: "fst (read_sector_loop d u first i bF s) =
              (bTolerateFailures s \<or> i < first \<or> (\<not> bF \<and> (\<forall>ok \<in> set (True # oks'). ok)))"
          proof (cases "i - 1 < first")
            case True
            then show ?thesis
              using e \<open>first \<le> i\<close> \<open>\<not> bF\<close> loop ih6 tol by simp
          next
            case False
            then show ?thesis
              using \<open>first \<le> i\<close> \<open>\<not> bF\<close> loop ih6 tol by simp
          qed
          have g7: "bTolerateFailures (snd (read_sector_loop d u first i bF s)) = bTolerateFailures s"
            by (simp add: loop ih7 tol)
          have "data_run d u first i bF s (True # oks')"
            unfolding data_run_def using g1 g2 g4 g5 g6 g7 False by blast
          then show ?thesis ..
        next
          case nok: False
          then have b': "bF'" "bTolerateFailures s"
            and tr: "trace s' = trace s @ [MifareCmd MC_READ (nat i) [] False]"
            using step Continue False by (auto split: if_splits)
          have "oks' = []"
            using ih b' by (simp add: data_run_def)
          then have "data_run d u first i bF s [False]"
            using ih loop False b' tr tol \<open>first \<le> i\<close>
            by (simp add: data_run_def bd read_events_Cons)
          then show ?thesis ..
        qed
      qed
    qed
  qed
qed

lemma guess_effects:
  "mc = MC_AUTH_A \<or> mc = MC_AUTH_B \<Longrightarrow>
   \<exists>evs. trace (snd (authenticate_guess d mc b i s)) = trace s @ evs \<and>
     (\<forall>e \<in> set evs. is_auth_attempt e \<or> is_select e) \<and>
     bTolerateFailures (snd (authenticate_guess d mc b i s)) = bTolerateFailures s \<and>
     magic2 (snd (authenticate_guess d mc b i s)) = magic2 s \<and>
     mtDump (snd (authenticate_guess d mc b i s)) = mtDump s"
proof (induction d mc b i s rule: authenticate_guess.induct)
  case (1 d mc b i s)
  have nr: "mc \<noteq> MC_READ" using "1.prems" by auto
  show ?case
  proof (cases "i < num_keys")
    case False
    then show ?thesis
      by (simp add: authenticate_guess.simps [of d mc b i s])
  next
    case True
    define s1 where "s1 = s\<lparr>mp := (mp s)\<lparr>abtKey := candidate_key i\<rparr>\<rparr>"
    define ok where "ok = fst (mifare_reply d (trace s1) mc (unat b) (mifare_cmd_params mc (mp s1)))"
    define s2 where "s2 = s1\<lparr>trace := trace s1 @ [MifareCmd mc (unat b) (mifare_cmd_params mc (mp s1)) ok]\<rparr>"
    define s3 where "s3 = snd (nfc_initiator_select_passive_target d
                           (take (szUidLen (nt s2)) (abtUid (nt s2))) s2)"
    have cmd: "nfc_initiator_mifare_cmd d mc (unat b) s1 = (ok, s2)"
      using mifare_cmd_not_read [OF nr, of d "unat b" s1] by (simp add: ok_def s2_def)
    have e2: "is_auth_attempt (MifareCmd mc (unat b) (mifare_cmd_params mc (mp s1)) ok)"
      using "1.prems" by auto
    show ?thesis
    proof (cases ok)
      case True
      have "authenticate_guess d mc b i s = (True, remember_key b s2)"
        using \<open>i < num_keys\<close> cmd True
        by (simp add: authenticate_guess.simps [of d mc b i s] Let_def s1_def)
      then show ?thesis
        using e2 by (simp add: remember_key_def s2_def s1_def)
    next
      case False
      have unfold: "authenticate_guess d mc b i s = authenticate_guess d mc b (i + 1) s3"
        using \<open>i < num_keys\<close> cmd False
        by (simp add: authenticate_guess.simps [of d mc b i s] Let_def s1_def s3_def)
      obtain evs where ih: "trace (snd (authenticate_guess d mc b (i + 1) s3)) = trace s3 @ evs"
        "\<forall>e \<in> set evs. is_auth_attempt e \<or> is_select e"
        "bTolerateFailures (snd (authenticate_guess d mc b (i + 1) s3)) = bTolerateFailures s3"
        "magic2 (snd (authenticate_guess d mc b (i + 1) s3)) = magic2 s3"
        "mtDump (snd (authenticate_guess d mc b (i + 1) s3)) = mtDump s3"
        using "1.IH" [OF \<open>i < num_keys\<close> s1_def cmd [symmetric] refl False "1.prems"]
        unfolding s3_def by blast
      have t3: "trace s3 = trace s @ [MifareCmd mc (unat b) (mifare_cmd_params mc (mp s1)) ok,
          SelectPassiveTarget (take (szUidLen (nt s2)) (abtUid (nt s2)))]"
        by (simp add: s3_def s2_def s1_def)
      have f3: "bTolerateFailures s3 = bTolerateFailures s" "magic2 s3 = magic2 s"
        "mtDump s3 = mtDump s"
        by (simp_all add: s3_def s2_def s1_def)
      let ?evs = "[MifareCmd mc (unat b) (mifare_cmd_params mc (mp s1)) ok,
          SelectPassiveTarget (take (szUidLen (nt s2)) (abtUid (nt s2)))] @ evs"
      have "trace (snd (authenticate_guess d mc b i s)) = trace s @ ?evs"
        using unfold ih(1) t3 by simp
      moreover have "\<forall>e \<in> set ?evs. is_auth_attempt e \<or> is_select e"
        using ih(2) e2 by simp
      ultimately show ?thesis
        using ih(3,4,5) f3 unfold by (intro exI [of _ ?evs]) simp
    qed
  qed
qed

lemma authenticate_effects:
  "\<exists>evs. trace (snd (authenticate d b s)) = trace s @ evs \<and>
     (\<forall>e \<in> set evs. is_auth_attempt e \<or> is_select e) \<and>
     bTolerateFailures (snd (authenticate d b s)) = bTolerateFailures s \<and>
     magic2 (snd (authenticate d b s)) = magic2 s \<and>
     mtDump (snd (authenticate d b s)) = mtDump s"
proof (cases "bUseKeyFile s")
  case True
  have mc: "auth_cmd s \<noteq> MC_READ" by (simp add: auth_cmd_def)
  show ?thesis
    using True mc
    by (simp add: authenticate_def Let_def mifare_cmd_not_read auth_cmd_def)
next
  case False
  define s0 where "s0 = s\<lparr>mp := (mp s)\<lparr>abtAuthUid :=
                  take 4 (drop (szUidLen (nt s) - 4) (abtUid (nt s)))\<rparr>\<rparr>"
  have mc: "auth_cmd s = MC_AUTH_A \<or> auth_cmd s = MC_AUTH_B" by (simp add: auth_cmd_def)
  have a: "authenticate d b s = authenticate_guess d (auth_cmd s) b 0 s0"
    using False by (simp add: authenticate_def Let_def auth_cmd_def s0_def)
  show ?thesis
    using guess_effects [OF mc, of d b 0 s0] by (simp add: a s0_def)
qed

lemma read_pass_data:
  assumes "\<forall>j. first \<le> j \<and> j \<le> i \<longrightarrow> \<not> is_trailer_block (word_of_int j)" and "first \<le> i"
  shows "\<exists>oks. read_pass d u first i s True s oks"
proof -
  obtain oks where "data_run d u first i False s oks"
    using read_data_run [OF assms(1)] by blast
  moreover have "\<not> i < first"
    using assms(2) by simp
  ultimately have "read_pass d u first i s True s oks"
    unfolding data_run_def read_pass_def by blast
  then show ?thesis ..
qed

lemma read_pass_trailer:
  assumes tr: "is_trailer_block (word_of_int i)"
    and low: "\<forall>j. first \<le> j \<and> j \<le> i - 1 \<longrightarrow> \<not> is_trailer_block (word_of_int j)"
    and le: "first \<le> i"
    and pre: "(if u = 0 then authenticate d (word_of_int i) s else (True, s)) = (a, s1)"
    and tol: "bTolerateFailures s1 = bTolerateFailures s"
  shows "\<exists>oks. read_pass d u first i s a s1 oks"
proof (cases a)
  case False
  have "read_sector_block d u i False s = Return False s1"
    using tr pre False
    by (auto simp: read_sector_block_def reselect_after_failure_def split: if_splits)
  then have "read_sector_loop d u first i False s = (False, s1)"
    using le by (simp add: read_sector_loop.simps [of d u first i False s])
  then have "read_pass d u first i s a s1 []"
    using False by (simp add: read_pass_def)
  then show ?thesis ..
next
  case True
  obtain ok s3 where c: "nfc_initiator_mifare_cmd d MC_READ (nat i) s1 = (ok, s3)"
    by (cases "nfc_initiator_mifare_cmd d MC_READ (nat i) s1")
  note f = mifare_cmd_readD [OF c]
  have t3: "trace s3 = trace s1 @ [MifareCmd MC_READ (nat i) [] ok]"
    and tol3: "bTolerateFailures s3 = bTolerateFailures s"
    using f tol by simp_all
  note bd = blocks_down_step [OF le]
  define s4 where "s4 = (if u \<noteq> 0 then
      s3\<lparr>mtDump := (mtDump s3)(nat i := set_mbd_abtData (abtData (mp s3)) (mtDump s3 (nat i)))\<rparr>
    else
      s3\<lparr>mtDump := (mtDump s3)(nat i :=
          set_abtKeyB (abtKeyB (mtKeys s3 (nat i)))
            (set_abtAccessBits (drop 6 (abtData (mp s3)))
               (set_abtKeyA (abtKeyA (mtKeys s3 (nat i))) (mtDump s3 (nat i)))))\<rparr>)"
  have t4: "trace s4 = trace s3" and tol4: "bTolerateFailures s4 = bTolerateFailures s"
    using tol3 by (simp_all add: s4_def)
  have blk: "read_sector_block d u i False s =
      (if ok then Continue False s4
       else if bTolerateFailures s then Continue True s3 else Return False s3)"
    using tr pre True c tol3
    by (auto simp: read_sector_block_def reselect_after_failure_def finish_block_def s4_def
        split: if_splits)
  show ?thesis
  proof (cases ok)
    case ok: True
    have loop: "read_sector_loop d u first i False s = read_sector_loop d u first (i - 1) False s4"
      using le blk ok by (simp add: read_sector_loop.simps [of d u first i False s])
    obtain oks' where "data_run d u first (i - 1) False s4 oks'"
      using read_data_run [OF low] by blast
    then have ih1: "trace (snd (read_sector_loop d u first (i - 1) False s4)) =
              trace s4 @ read_events (blocks_down first (i - 1)) oks'"
      and ih2: "length oks' \<le> length (blocks_down first (i - 1))"
      and ih4: "\<forall>ok \<in> set (butlast oks'). ok"
      and ih5: "(\<forall>ok \<in> set oks'. ok) \<longrightarrow> length oks' = length (blocks_down first (i - 1))"
      and ih6: "fst (read_sector_loop d u first (i - 1) False s4) =
              (bTolerateFailures s4 \<or> i - 1 < first \<or> (\<forall>ok \<in> set oks'. ok))"
      unfolding data_run_def by blast+
    have e: "i - 1 < first \<Longrightarrow> oks' = []"
      using ih2 by (simp add: blocks_down_empty)
    have g1: "trace (snd (read_sector_loop d u first i False s)) =
        trace s1 @ read_events (blocks_down first i) (True # oks')"
      using loop ih1 t4 t3 ok by (simp add: bd read_events_Cons)
    have g2: "length (True # oks') \<le> length (blocks_down first i)"
      using ih2 by (simp add: bd)
    have g4: "\<forall>ok \<in> set (butlast (True # oks')). ok"
    proof (cases "oks' = []")
      case True
      then show ?thesis by simp
    next
      case False
      have "butlast (True # oks') = True # butlast oks'"
        using False by simp
      then show ?thesis
        using ih4 by (metis set_ConsD)
    qed
    have g5: "(\<forall>ok \<in> set (True # oks'). ok) \<longrightarrow>
        length (True # oks') = length (blocks_down first i)"
      using ih5 by (simp add: bd)
    have g6: "fst (read_sector_loop d u first i False s) =
        (bTolerateFailures s \<or> (\<forall>ok \<in> set (True # oks'). ok))"
    proof (cases "i - 1 < first")
      case True
      then show ?thesis
        using e loop ih6 tol4 by simp
    next
      case False
      then show ?thesis
        using loop ih6 tol4 by simp
    qed
    have "read_pass d u first i s a s1 (True # oks')"
      unfolding read_pass_def using g1 g2 g4 g5 g6 True by blast
    then show ?thesis ..
  next
    case nok: False
    show ?thesis
    proof (cases "bTolerateFailures s")
      case tolerate: True
      have loop: "read_sector_loop d u first i False s = read_sector_loop d u first (i - 1) True s3"
        using le blk nok tolerate by (simp add: read_sector_loop.simps [of d u first i False s])
      obtain oks' where dr: "data_run d u first (i - 1) True s3 oks'"
        using read_data_run [OF low] by blast
      then have "oks' = []"
        unfolding data_run_def by blast
      with dr have ih1: "trace (snd (read_sector_loop d u first (i - 1) True s3)) = trace s3"
        and ih6: "fst (read_sector_loop d u first (i - 1) True s3)"
        using tol3 tolerate unfolding data_run_def by simp_all
      have "read_pass d u first i s a s1 [False]"
        using loop ih1 ih6 t3 nok tolerate True
        by (simp add: read_pass_def bd read_events_Cons)
      then show ?thesis ..
    next
      case strict: False
      have loop: "read_sector_loop d u first i False s = (False, s3)"
        using le blk nok strict by (simp add: read_sector_loop.simps [of d u first i False s])
      have "read_pass d u first i s a s1 [False]"
        using loop t3 nok strict True
        by (simp add: read_pass_def bd read_events_Cons)
      then show ?thesis ..
    qed
  qed
qed

lemma blocks_down_0_3: "blocks_down 0 3 = [3, 2, 1, 0]"
  by (simp add: blocks_down_def upto_rec1)

lemma low_blocks_sector_0:
  "\<forall>j. (0::int) \<le> j \<and> j \<le> 3 - 1 \<longrightarrow> \<not> is_trailer_block (word_of_int j)"
proof (intro allI impI)
  fix j :: int
  assume "0 \<le> j \<and> j \<le> 3 - 1"
  then have "j = 0 \<or> j = 1 \<or> j = 2" by auto
  then show "\<not> is_trailer_block (word_of_int j)"
    by (auto simp: is_trailer_block_unat)
qed

lemma read_sector_0_eq:
  "read_sector d 0 u s =
     (if u \<noteq> 0 then
        (if fst (unlock_card d s) then read_sector_loop d u 0 3 False (snd (unlock_card d s))
         else (False, snd (unlock_card d s)))
      else read_sector_loop d u 0 3 False s)"
  by (simp add: read_sector_def SECTOR_SIZE_def Let_def split: prod.split)

text \<open>
  C8. A pass of \<open>read_sector\<close> over sector 0 does the prelude once (one call of
  \<open>authenticate\<close> on block 3, the trailer, or in unlocked mode \<open>unlock_card\<close> and no
  authentication) and after it issues nothing but block reads, for the blocks 3, 2, 1, 0
  in that order: the reads are a prefix of that sequence, only the last one issued can
  have failed, none is issued when the prelude fails, and all four are issued, and the
  pass returns true, when the prelude and every read succeed.
\<close>

theorem read_sector_zero_order:
  "\<exists>oks.
     trace (snd (read_sector d 0 u s)) =
       trace (snd (sector_prelude d u 3 s)) @ read_events [3, 2, 1, 0] oks \<and>
     length oks \<le> 4 \<and>
     (\<forall>ok \<in> set (butlast oks). ok) \<and>
     (\<not> fst (sector_prelude d u 3 s) \<longrightarrow> oks = [] \<and> \<not> fst (read_sector d 0 u s)) \<and>
     (fst (sector_prelude d u 3 s) \<and> (\<forall>ok \<in> set oks. ok) \<longrightarrow>
        length oks = 4 \<and> fst (read_sector d 0 u s))"
proof (cases "u = 0")
  case True
  have tr: "is_trailer_block (word_of_int 3)"
    by (simp add: is_trailer_block_unat)
  obtain a s1 where au: "authenticate d 3 s = (a, s1)"
    by (cases "authenticate d 3 s")
  have pre: "(if u = 0 then authenticate d (word_of_int 3) s else (True, s)) = (a, s1)"
    using True au by simp
  have tol: "bTolerateFailures s1 = bTolerateFailures s"
    using authenticate_effects [of d 3 s] au by auto
  obtain oks where "read_pass d u 0 3 s a s1 oks"
    using read_pass_trailer [OF tr low_blocks_sector_0 _ pre tol] by auto
  then have "trace (snd (read_sector_loop d u 0 3 False s)) = trace s1 @ read_events [3, 2, 1, 0] oks"
    and "length oks \<le> 4" and "\<forall>ok \<in> set (butlast oks). ok"
    and "\<not> a \<longrightarrow> oks = [] \<and> \<not> fst (read_sector_loop d u 0 3 False s)"
    and "a \<and> (\<forall>ok \<in> set oks. ok) \<longrightarrow> length oks = 4 \<and> fst (read_sector_loop d u 0 3 False s)"
    unfolding read_pass_def blocks_down_0_3 by auto
  then show ?thesis
    using True au by (intro exI [of _ oks]) (simp add: read_sector_0_eq sector_prelude_def)
next
  case False
  obtain a s1 where ul: "unlock_card d s = (a, s1)"
    by (cases "unlock_card d s")
  show ?thesis
  proof (cases a)
    case no: False
    then show ?thesis
      using False ul by (intro exI [of _ "[]"]) (simp add: read_sector_0_eq sector_prelude_def)
  next
    case True
    have tr: "is_trailer_block (word_of_int 3)"
      by (simp add: is_trailer_block_unat)
    have pre: "(if u = 0 then authenticate d (word_of_int 3) s1 else (True, s1)) = (True, s1)"
      using False by simp
    obtain oks where "read_pass d u 0 3 s1 True s1 oks"
      using read_pass_trailer [OF tr low_blocks_sector_0 _ pre refl] by auto
    then have "trace (snd (read_sector_loop d u 0 3 False s1)) = trace s1 @ read_events [3, 2, 1, 0] oks"
      and "length oks \<le> 4" and "\<forall>ok \<in> set (butlast oks). ok"
      and "(\<forall>ok \<in> set oks. ok) \<longrightarrow> length oks = 4 \<and> fst (read_sector_loop d u 0 3 False s1)"
      unfolding read_pass_def blocks_down_0_3 by auto
    then show ?thesis
      using False True ul by (intro exI [of _ oks]) (simp add: read_sector_0_eq sector_prelude_def)
  qed
qed

lemma ff_tag_read_sector_0:
  "fst (read_sector ff_tag 0 0 sim_state) \<and>
   trace (snd (read_sector ff_tag 0 0 sim_state)) =
     [MifareCmd MC_AUTH_A 3 [0xff, 0xff, 0xff, 0xff, 0xff, 0xff, 0x04, 0x12, 0x34, 0x56] True,
      MifareCmd MC_READ 3 [] True, MifareCmd MC_READ 2 [] True,
      MifareCmd MC_READ 1 [] True, MifareCmd MC_READ 0 [] True]"
  by (simp add: read_sector_0_eq read_sector_loop.simps read_sector_block_def
      is_trailer_block_unat reselect_after_failure_def authenticate_def Let_def
      authenticate_guess.simps num_keys_9 candidate_key_def keys_def
      nfc_initiator_mifare_cmd_def mifare_cmd_params_def finish_block_def remember_key_def
      ff_tag_def sim_device_def sim_state_def sim_target_def key_ff_def io_all_ok_def)

theorem read_sector_zero_order_witness:
  "fst (sector_prelude ff_tag 0 3 sim_state) \<and>
   fst (read_sector ff_tag 0 0 sim_state) \<and>
   trace (snd (read_sector ff_tag 0 0 sim_state)) =
     trace (snd (sector_prelude ff_tag 0 3 sim_state)) @
       read_events [3, 2, 1, 0] [True, True, True, True]"
proof -
  have pre: "fst (sector_prelude ff_tag 0 3 sim_state) \<and>
      trace (snd (sector_prelude ff_tag 0 3 sim_state)) =
        [MifareCmd MC_AUTH_A 3 [0xff, 0xff, 0xff, 0xff, 0xff, 0xff, 0x04, 0x12, 0x34, 0x56] True]"
    by (simp add: sector_prelude_def authenticate_def Let_def
        authenticate_guess.simps num_keys_9 candidate_key_def keys_def
        nfc_initiator_mifare_cmd_def mifare_cmd_params_def remember_key_def
        ff_tag_def sim_device_def sim_state_def sim_target_def key_ff_def io_all_ok_def)
  obtain oks where o: "trace (snd (read_sector ff_tag 0 0 sim_state)) =
       trace (snd (sector_prelude ff_tag 0 3 sim_state)) @ read_events [3, 2, 1, 0] oks"
    "length oks \<le> 4"
    using read_sector_zero_order [of ff_tag 0 sim_state] by blast
  have "read_events [3, 2, 1, 0] oks =
      [MifareCmd MC_READ 3 [] True, MifareCmd MC_READ 2 [] True,
       MifareCmd MC_READ 1 [] True, MifareCmd MC_READ 0 [] True]"
    using o(1) pre ff_tag_read_sector_0 by simp
  then have "read_events [3, 2, 1, 0] oks = read_events [3, 2, 1, 0] [True, True, True, True]"
    by (simp add: read_events_def)
  then show ?thesis
    using o(1) pre ff_tag_read_sector_0 by simp
qed

lemma unat_word_of_int_block:
  "0 \<le> j \<Longrightarrow> j < 1024 \<Longrightarrow> unat (word_of_int j :: uint32) = nat j"
proof -
  assume a: "0 \<le> j" "j < 1024"
  have "uint (word_of_int j :: uint32) = j mod 2 ^ 32"
    by (simp add: uint_word_of_int)
  also have "\<dots> = j"
    using a by simp
  finally show ?thesis
    by (simp add: unat_eq_nat_uint)
qed

lemma uint_byte_bound: "0 \<le> uint (sec :: byte) \<and> uint sec < 256"
  using uint_bounded [of sec] by simp

lemma low_blocks_sector:
  "\<forall>j. 4 * uint (sec :: byte) \<le> j \<and> j \<le> 4 * uint sec + 3 - 1 \<longrightarrow>
       \<not> is_trailer_block (word_of_int j)"
proof (intro allI impI)
  fix j :: int
  assume r: "4 * uint sec \<le> j \<and> j \<le> 4 * uint sec + 3 - 1"
  have "0 \<le> uint sec" by simp
  then have b: "0 \<le> j" "j < 1024"
    using r uint_byte_bound [of sec] by linarith+
  have m: "(nat j + 1) mod 4 \<noteq> 0"
    using r b by presburger
  have "(nat j + 1) mod 16 mod 4 = (nat j + 1) mod 4"
    by (rule mod_mod_cancel) simp
  with m have m16: "(nat j + 1) mod 16 \<noteq> 0"
    by auto
  show "\<not> is_trailer_block (word_of_int j)"
    using m m16 by (simp add: is_trailer_block_unat unat_word_of_int_block [OF b])
qed

lemma short_bool_list:
  "length (oks :: bool list) \<le> 4 \<Longrightarrow>
   oks = [] \<or> (\<exists>a. oks = [a]) \<or> (\<exists>a b. oks = [a, b]) \<or>
   (\<exists>a b c. oks = [a, b, c]) \<or> (\<exists>a b c e. oks = [a, b, c, e])"
  by (auto simp: le_Suc_eq eval_nat_numeral length_Suc_conv)

lemma failed_read_is_last:
  assumes "length oks \<le> 4" and "\<forall>ok \<in> set (butlast oks). ok"
    and "b3 < b2" and "b2 < b1" and "b1 < b0"
    and "MifareCmd MC_READ b p False \<in> set (read_events [b0, b1, b2, b3] oks)"
  shows "\<not> (\<forall>ok \<in> set oks. ok) \<and>
     read_events [b0, b1, b2, b3] oks \<noteq> [] \<and>
     last (read_events [b0, b1, b2, b3] oks) = MifareCmd MC_READ b p False \<and>
     (\<forall>b' p' ok. MifareCmd MC_READ b' p' ok \<in> set (read_events [b0, b1, b2, b3] oks) \<longrightarrow> b \<le> b')"
  using short_bool_list [OF assms(1)] assms(2-)
  by (elim disjE exE) (auto simp: read_events_def split: if_splits)

lemma blocks_down_sector:
  "0 \<le> q \<Longrightarrow> blocks_down (4 * q) (4 * q + 3) =
     [nat (4 * q + 3), nat (4 * q + 2), nat (4 * q + 1), nat (4 * q)]"
proof -
  have "[4 * q..4 * q + 3] = [4 * q, 4 * q + 1, 4 * q + 2, 4 * q + 3]"
    by (simp add: upto_rec1)
  then show ?thesis
    by (simp add: blocks_down_def)
qed

lemma unlock_card_no_read:
  "\<exists>pre. trace (snd (unlock_card d s)) = trace s @ pre \<and> (\<forall>e \<in> set pre. \<not> is_read e) \<and>
     bTolerateFailures (snd (unlock_card d s)) = bTolerateFailures s"
proof (cases "magic2 s")
  case True
  then show ?thesis by (simp add: unlock_card_def)
next
  case False
  obtain r1 r2 r3 r4 r5 r6 r7 where
    t: "trace (snd (unlock_card d s)) =
       trace s @ take (unlock_stop r1 r2 r4 r5 r6)
         (unlock_calls (take 4 (crc_append d (abtHalt s) 2)) r1 r2 r3 r4 r5 r6 r7)"
    and f: "bTolerateFailures (snd (unlock_card d s)) = bTolerateFailures s"
    using unlock_card_run [OF False, of d] by blast
  have "\<forall>e \<in> set (unlock_calls (take 4 (crc_append d (abtHalt s) 2)) r1 r2 r3 r4 r5 r6 r7).
      \<not> is_read e"
    by (simp add: unlock_calls_def)
  then have "\<forall>e \<in> set (take (unlock_stop r1 r2 r4 r5 r6)
         (unlock_calls (take 4 (crc_append d (abtHalt s) 2)) r1 r2 r3 r4 r5 r6 r7)). \<not> is_read e"
    by (meson in_set_takeD)
  then show ?thesis
    using t f by blast
qed

lemma authenticate_no_read:
  "\<exists>pre. trace (snd (authenticate d b s)) = trace s @ pre \<and> (\<forall>e \<in> set pre. \<not> is_read e) \<and>
     bTolerateFailures (snd (authenticate d b s)) = bTolerateFailures s"
proof -
  obtain evs where t: "trace (snd (authenticate d b s)) = trace s @ evs"
    and k: "\<forall>e \<in> set evs. is_auth_attempt e \<or> is_select e"
    and f: "bTolerateFailures (snd (authenticate d b s)) = bTolerateFailures s"
    using authenticate_effects [of d b s] by blast
  have "\<not> is_read e" if "is_auth_attempt e \<or> is_select e" for e
    using that by (cases e) auto
  then show ?thesis
    using t k f by blast
qed

lemma read_sector_loop_shape:
  assumes "0 \<le> q" and "q < 256"
  shows "\<exists>pre oks.
     trace (snd (read_sector_loop d u (4 * q) (4 * q + 3) False s)) =
       trace s @ pre @ read_events (blocks_down (4 * q) (4 * q + 3)) oks \<and>
     (\<forall>e \<in> set pre. \<not> is_read e) \<and>
     length oks \<le> 4 \<and>
     (\<forall>ok \<in> set (butlast oks). ok) \<and>
     (\<not> bTolerateFailures s \<and> \<not> (\<forall>ok \<in> set oks. ok) \<longrightarrow>
        \<not> fst (read_sector_loop d u (4 * q) (4 * q + 3) False s))"
proof -
  have len: "length (blocks_down (4 * q) (4 * q + 3)) = 4"
    by (simp add: blocks_down_sector [OF assms(1)])
  have le: "4 * q \<le> 4 * q + 3" by simp
  have low: "\<forall>j. 4 * q \<le> j \<and> j \<le> 4 * q + 3 - 1 \<longrightarrow> \<not> is_trailer_block (word_of_int j)"
  proof (intro allI impI)
    fix j :: int
    assume r: "4 * q \<le> j \<and> j \<le> 4 * q + 3 - 1"
    have b: "0 \<le> j" "j < 1024"
      using r assms by linarith+
    have m: "(nat j + 1) mod 4 \<noteq> 0"
      using r b by presburger
    have "(nat j + 1) mod 16 mod 4 = (nat j + 1) mod 4"
      by (rule mod_mod_cancel) simp
    with m have m16: "(nat j + 1) mod 16 \<noteq> 0"
      by auto
    show "\<not> is_trailer_block (word_of_int j)"
      using m m16 by (simp add: is_trailer_block_unat unat_word_of_int_block [OF b])
  qed
  have "\<exists>pre a s1 oks. trace s1 = trace s @ pre \<and> (\<forall>e \<in> set pre. \<not> is_read e) \<and>
      read_pass d u (4 * q) (4 * q + 3) s a s1 oks"
  proof (cases "is_trailer_block (word_of_int (4 * q + 3))")
    case True
    obtain a s1 where pre: "(if u = 0 then authenticate d (word_of_int (4 * q + 3)) s else (True, s)) = (a, s1)"
      by (cases "if u = 0 then authenticate d (word_of_int (4 * q + 3)) s else (True, s)")
    obtain evs where e: "trace s1 = trace s @ evs" "\<forall>e \<in> set evs. \<not> is_read e"
      "bTolerateFailures s1 = bTolerateFailures s"
    proof (cases "u = 0")
      case True
      then have "s1 = snd (authenticate d (word_of_int (4 * q + 3)) s)"
        using pre by simp
      then show ?thesis
        using authenticate_no_read [of d "word_of_int (4 * q + 3)" s] that by blast
    next
      case False
      then have "s1 = s" using pre by simp
      then show ?thesis
        using that [of "[]"] by simp
    qed
    obtain oks where "read_pass d u (4 * q) (4 * q + 3) s a s1 oks"
      using read_pass_trailer [OF True low le pre e(3)] by blast
    then show ?thesis
      using e by blast
  next
    case False
    have all: "\<forall>j. 4 * q \<le> j \<and> j \<le> 4 * q + 3 \<longrightarrow> \<not> is_trailer_block (word_of_int j)"
    proof (intro allI impI)
      fix j :: int
      assume r: "4 * q \<le> j \<and> j \<le> 4 * q + 3"
      show "\<not> is_trailer_block (word_of_int j)"
      proof (cases "j = 4 * q + 3")
        case True
        then show ?thesis using False by simp
      next
        case ne: False
        then have "4 * q \<le> j \<and> j \<le> 4 * q + 3 - 1" using r by simp
        then show ?thesis using low by blast
      qed
    qed
    obtain oks where "read_pass d u (4 * q) (4 * q + 3) s True s oks"
      using read_pass_data [OF all le] by blast
    then have "trace s = trace s @ [] \<and> (\<forall>e \<in> set []. \<not> is_read e) \<and>
        read_pass d u (4 * q) (4 * q + 3) s True s oks"
      by simp
    then show ?thesis by blast
  qed
  then obtain pre a s1 oks where p: "trace s1 = trace s @ pre" "\<forall>e \<in> set pre. \<not> is_read e"
    and rp: "read_pass d u (4 * q) (4 * q + 3) s a s1 oks"
    by blast
  have g1: "trace (snd (read_sector_loop d u (4 * q) (4 * q + 3) False s)) =
       trace s @ pre @ read_events (blocks_down (4 * q) (4 * q + 3)) oks"
    using rp p(1) unfolding read_pass_def by simp
  have g3: "length oks \<le> 4"
    using rp len unfolding read_pass_def by simp
  have g4: "\<forall>ok \<in> set (butlast oks). ok"
    using rp unfolding read_pass_def by blast
  have g5: "\<not> bTolerateFailures s \<and> \<not> (\<forall>ok \<in> set oks. ok) \<longrightarrow>
        \<not> fst (read_sector_loop d u (4 * q) (4 * q + 3) False s)"
    using rp unfolding read_pass_def by blast
  show ?thesis
    using g1 p(2) g3 g4 g5 by blast
qed

lemma read_sector_eq:
  "read_sector d sec u s =
     (if u \<noteq> 0 then
        (if fst (unlock_card d s)
         then read_sector_loop d u (4 * uint sec) (4 * uint sec + 3) False (snd (unlock_card d s))
         else (False, snd (unlock_card d s)))
      else read_sector_loop d u (4 * uint sec) (4 * uint sec + 3) False s)"
  by (simp add: read_sector_def SECTOR_SIZE_def Let_def algebra_simps split: prod.split)

lemma read_sector_shape:
  "\<exists>pre oks.
     trace (snd (read_sector d sec u s)) =
       trace s @ pre @ read_events (blocks_down (4 * uint sec) (4 * uint sec + 3)) oks \<and>
     (\<forall>e \<in> set pre. \<not> is_read e) \<and>
     length oks \<le> 4 \<and>
     (\<forall>ok \<in> set (butlast oks). ok) \<and>
     (\<not> bTolerateFailures s \<and> \<not> (\<forall>ok \<in> set oks. ok) \<longrightarrow> \<not> fst (read_sector d sec u s))"
proof -
  have q: "0 \<le> uint sec" "uint sec < 256"
    using uint_byte_bound [of sec] by simp_all
  show ?thesis
  proof (cases "u = 0")
    case True
    then show ?thesis
      using read_sector_loop_shape [OF q, of d u s] by (simp add: read_sector_eq)
  next
    case False
    obtain pre0 where u0: "trace (snd (unlock_card d s)) = trace s @ pre0"
      "\<forall>e \<in> set pre0. \<not> is_read e"
      "bTolerateFailures (snd (unlock_card d s)) = bTolerateFailures s"
      using unlock_card_no_read [of d s] by blast
    show ?thesis
    proof (cases "fst (unlock_card d s)")
      case no: False
      have "trace (snd (read_sector d sec u s)) =
          trace s @ pre0 @ read_events (blocks_down (4 * uint sec) (4 * uint sec + 3)) []"
        using False no u0(1) by (simp add: read_sector_eq)
      moreover have "\<not> fst (read_sector d sec u s)"
        using False no by (simp add: read_sector_eq)
      ultimately show ?thesis
        using u0(2) by (intro exI [of _ pre0] exI [of _ "[]"]) simp
    next
      case True
      obtain pre oks where l:
        "trace (snd (read_sector_loop d u (4 * uint sec) (4 * uint sec + 3) False (snd (unlock_card d s)))) =
           trace (snd (unlock_card d s)) @ pre @
             read_events (blocks_down (4 * uint sec) (4 * uint sec + 3)) oks"
        "\<forall>e \<in> set pre. \<not> is_read e" "length oks \<le> 4" "\<forall>ok \<in> set (butlast oks). ok"
        "\<not> bTolerateFailures (snd (unlock_card d s)) \<and> \<not> (\<forall>ok \<in> set oks. ok) \<longrightarrow>
           \<not> fst (read_sector_loop d u (4 * uint sec) (4 * uint sec + 3) False (snd (unlock_card d s)))"
        using read_sector_loop_shape [OF q, of d u "snd (unlock_card d s)"] by blast
      have rs: "read_sector d sec u s =
          read_sector_loop d u (4 * uint sec) (4 * uint sec + 3) False (snd (unlock_card d s))"
        using False True by (simp add: read_sector_eq)
      have g1: "trace (snd (read_sector d sec u s)) =
          trace s @ (pre0 @ pre) @ read_events (blocks_down (4 * uint sec) (4 * uint sec + 3)) oks"
        using l(1) u0(1) rs by simp
      have g2: "\<forall>e \<in> set (pre0 @ pre). \<not> is_read e"
        using u0(2) l(2) by auto
      have g5: "\<not> bTolerateFailures s \<and> \<not> (\<forall>ok \<in> set oks. ok) \<longrightarrow> \<not> fst (read_sector d sec u s)"
        using l(5) u0(3) rs by simp
      show ?thesis
        using g1 g2 l(3,4) g5 by blast
    qed
  qed
qed

text \<open>
  C7. With failure tolerance disabled, if a read issued by \<open>read_sector\<close> fails (for
  any sector and any block of it, trailer or not, and so for block 2 of a 4-block sector),
  then that read is the last call the pass makes, no read command is issued for any
  lower-indexed block, and \<open>read_sector\<close> returns false.
\<close>

theorem read_sector_failure_propagation:
  assumes "\<not> bTolerateFailures s"
  shows "MifareCmd MC_READ b p False \<in> set (new_events s (snd (read_sector d sec u s))) \<longrightarrow>
     \<not> fst (read_sector d sec u s) \<and>
     last (new_events s (snd (read_sector d sec u s))) = MifareCmd MC_READ b p False \<and>
     (\<forall>b' p' ok. b' < b \<longrightarrow>
        MifareCmd MC_READ b' p' ok \<notin> set (new_events s (snd (read_sector d sec u s))))"
proof
  assume failed: "MifareCmd MC_READ b p False \<in> set (new_events s (snd (read_sector d sec u s)))"
  have q: "0 \<le> uint sec" by simp
  let ?R = "\<lambda>oks. read_events [nat (4 * uint sec + 3), nat (4 * uint sec + 2),
      nat (4 * uint sec + 1), nat (4 * uint sec)] oks"
  obtain pre oks where t: "trace (snd (read_sector d sec u s)) = trace s @ pre @ ?R oks"
    and nr: "\<forall>e \<in> set pre. \<not> is_read e"
    and len: "length oks \<le> 4" and bl: "\<forall>ok \<in> set (butlast oks). ok"
    and res: "\<not> bTolerateFailures s \<and> \<not> (\<forall>ok \<in> set oks. ok) \<longrightarrow> \<not> fst (read_sector d sec u s)"
    using read_sector_shape [of d sec u s] unfolding blocks_down_sector [OF q] by blast
  have new: "new_events s (snd (read_sector d sec u s)) = pre @ ?R oks"
    using t by (rule new_events_append)
  have "MifareCmd MC_READ b p False \<notin> set pre"
    using nr by force
  then have inR: "MifareCmd MC_READ b p False \<in> set (?R oks)"
    using failed new by simp
  have d1: "nat (4 * uint sec) < nat (4 * uint sec + 1)"
    and d2: "nat (4 * uint sec + 1) < nat (4 * uint sec + 2)"
    and d3: "nat (4 * uint sec + 2) < nat (4 * uint sec + 3)"
    using q by linarith+
  note fl = failed_read_is_last [OF len bl d1 d2 d3 inR]
  have r1: "\<not> fst (read_sector d sec u s)"
    using fl res assms by blast
  have r2: "last (new_events s (snd (read_sector d sec u s))) = MifareCmd MC_READ b p False"
    using fl by (simp add: new)
  have r3: "MifareCmd MC_READ b' p' ok \<notin> set (new_events s (snd (read_sector d sec u s)))"
    if "b' < b" for b' p' ok
  proof
    assume "MifareCmd MC_READ b' p' ok \<in> set (new_events s (snd (read_sector d sec u s)))"
    moreover have "MifareCmd MC_READ b' p' ok \<notin> set pre"
      using nr by force
    ultimately have "MifareCmd MC_READ b' p' ok \<in> set (?R oks)"
      using new by simp
    then have "b \<le> b'" using fl by blast
    then show False using that by simp
  qed
  show "\<not> fst (read_sector d sec u s) \<and>
     last (new_events s (snd (read_sector d sec u s))) = MifareCmd MC_READ b p False \<and>
     (\<forall>b' p' ok. b' < b \<longrightarrow>
        MifareCmd MC_READ b' p' ok \<notin> set (new_events s (snd (read_sector d sec u s))))"
    using r1 r2 r3 by blast
qed

lemma scratched_tag_read_loop:
  "trace (snd (read_sector_loop scratched_tag 0 0 3 False strict_state)) =
     [MifareCmd MC_AUTH_A 3 [0xff, 0xff, 0xff, 0xff, 0xff, 0xff, 0x04, 0x12, 0x34, 0x56] True,
      MifareCmd MC_READ 3 [] True, MifareCmd MC_READ 2 [] False]"
  by (simp add: read_sector_loop.simps read_sector_block_def
      is_trailer_block_unat reselect_after_failure_def authenticate_def Let_def
      authenticate_guess.simps num_keys_9 candidate_key_def keys_def
      nfc_initiator_mifare_cmd_def mifare_cmd_params_def finish_block_def remember_key_def
      scratched_tag_def sim_device_def strict_state_def sim_state_def sim_target_def key_ff_def
      block_2_unreadable_def)

lemma scratched_tag_read_sector_0:
  "trace (snd (read_sector scratched_tag 0 0 strict_state)) =
     [MifareCmd MC_AUTH_A 3 [0xff, 0xff, 0xff, 0xff, 0xff, 0xff, 0x04, 0x12, 0x34, 0x56] True,
      MifareCmd MC_READ 3 [] True, MifareCmd MC_READ 2 [] False]"
  by (simp add: read_sector_0_eq scratched_tag_read_loop)

theorem read_sector_failure_propagation_witness:
  "\<not> bTolerateFailures strict_state \<and>
   new_events strict_state (snd (read_sector scratched_tag 0 0 strict_state)) =
     [MifareCmd MC_AUTH_A 3 [0xff, 0xff, 0xff, 0xff, 0xff, 0xff, 0x04, 0x12, 0x34, 0x56] True,
      MifareCmd MC_READ 3 [] True, MifareCmd MC_READ 2 [] False] \<and>
   \<not> fst (read_sector scratched_tag 0 0 strict_state) \<and>
   MifareCmd MC_READ 1 [] True \<notin>
     set (new_events strict_state (snd (read_sector scratched_tag 0 0 strict_state))) \<and>
   MifareCmd MC_READ 0 [] True \<notin>
     set (new_events strict_state (snd (read_sector scratched_tag 0 0 strict_state)))"
proof -
  have h: "\<not> bTolerateFailures strict_state"
    by (simp add: strict_state_def sim_state_def)
  have t0: "trace strict_state = []"
    by (simp add: strict_state_def sim_state_def)
  have n: "new_events strict_state (snd (read_sector scratched_tag 0 0 strict_state)) =
     [MifareCmd MC_AUTH_A 3 [0xff, 0xff, 0xff, 0xff, 0xff, 0xff, 0x04, 0x12, 0x34, 0x56] True,
      MifareCmd MC_READ 3 [] True, MifareCmd MC_READ 2 [] False]"
    by (simp add: new_events_def scratched_tag_read_sector_0 t0)
  show ?thesis
    using read_sector_failure_propagation [OF h, of 2 "[]" scratched_tag 0 0] h n
    by simp
qed

subsection \<open>write_sector\<close>

lemma mifare_cmd_writeD:
  "nfc_initiator_mifare_cmd d MC_WRITE b s = (ok, s') \<Longrightarrow>
     trace s' = trace s @ [MifareCmd MC_WRITE b (abtData (mp s)) ok] \<and>
     bTolerateFailures s' = bTolerateFailures s \<and> magic2 s' = magic2 s \<and>
     mtDump s' = mtDump s"
  by (auto simp: nfc_initiator_mifare_cmd_def mifare_cmd_params_def Let_def split: prod.splits)

lemma reselect_no_failure: "reselect_after_failure d False s = (True, s)"
  by (simp add: reselect_after_failure_def)

lemma write_first_not_first:
  "\<not> is_first_block (of_nat i) \<Longrightarrow> write_sector_first d wbz i bF s = (True, bF, s)"
  by (simp add: write_sector_first_def)

lemma write_first_unlocked:
  "wbz \<noteq> 0 \<Longrightarrow> write_sector_first d wbz i False s = (True, False, s)"
  by (simp add: write_sector_first_def reselect_after_failure_def)

lemma write_first_effects:
  assumes "write_sector_first d wbz i False s = (entered, bF1, s1)"
  shows "\<exists>pre. trace s1 = trace s @ pre \<and> (\<forall>e \<in> set pre. \<not> is_write e) \<and>
     bTolerateFailures s1 = bTolerateFailures s \<and> magic2 s1 = magic2 s \<and>
     mtDump s1 = mtDump s \<and> \<not> bF1"
proof (cases "is_first_block (of_nat i) \<and> wbz = 0")
  case False
  then have "s1 = s \<and> \<not> bF1"
    using assms by (auto simp: write_sector_first_def reselect_no_failure split: if_splits)
  then show ?thesis by simp
next
  case True
  then have s1: "s1 = snd (authenticate d (of_nat i) s)" and b: "\<not> bF1"
    using assms
    by (auto simp: write_sector_first_def reselect_no_failure split: prod.splits)
  obtain evs where t: "trace s1 = trace s @ evs"
    and k: "\<forall>e \<in> set evs. is_auth_attempt e \<or> is_select e"
    and f: "bTolerateFailures s1 = bTolerateFailures s" "magic2 s1 = magic2 s"
      "mtDump s1 = mtDump s"
    using authenticate_effects [of d "of_nat i" s] unfolding s1 by blast
  have "\<not> is_write e" if "is_auth_attempt e \<or> is_select e" for e
    using that by (cases e) auto
  then show ?thesis
    using t k f b by blast
qed

lemma write_step:
  assumes "write_sector_first d wbz i bF s = (True, bF1, s1)"
  shows "\<exists>w. trace (flow_state (write_sector_block d wbz i bF s)) = trace s1 @ w \<and>
     bTolerateFailures (flow_state (write_sector_block d wbz i bF s)) = bTolerateFailures s1 \<and>
     (w = [] \<or> (\<exists>p ok. w = [MifareCmd MC_WRITE i p ok])) \<and>
     (bF1 \<and> w \<noteq> [] \<longrightarrow> is_trailer_block (of_nat i)) \<and>
     (write_sector_block d wbz i bF s =
        Return False (flow_state (write_sector_block d wbz i bF s)) \<or>
      write_sector_block d wbz i bF s =
        Continue (bF1 \<or> (\<exists>e \<in> set w. is_failed_write e))
          (flow_state (write_sector_block d wbz i bF s))) \<and>
     ((\<exists>e \<in> set w. is_failed_write e) \<and> \<not> bTolerateFailures s1 \<longrightarrow>
        write_sector_block d wbz i bF s =
          Return False (flow_state (write_sector_block d wbz i bF s))) \<and>
     (bTolerateFailures s1 \<and> (0 < i \<or> magic2 s1) \<longrightarrow>
        write_sector_block d wbz i bF s =
          Continue (bF1 \<or> (\<exists>e \<in> set w. is_failed_write e))
            (flow_state (write_sector_block d wbz i bF s)))"
proof (cases "is_trailer_block (of_nat i)")
  case True
  define s2 where "s2 = s1\<lparr>mp := (mp s1)\<lparr>abtData :=
                       memcpy_at 10 6 (abtKeyB (mtDump s1 i))
                         (memcpy_at 6 4 (abtAccessBits (mtDump s1 i))
                            (memcpy_at 0 6 (abtKeyA (mtDump s1 i)) (abtData (mp s1))))\<rparr>\<rparr>"
  obtain ok s3 where c: "nfc_initiator_mifare_cmd d MC_WRITE i s2 = (ok, s3)"
    by (cases "nfc_initiator_mifare_cmd d MC_WRITE i s2")
  have f: "trace s3 = trace s1 @ [MifareCmd MC_WRITE i (abtData (mp s2)) ok]"
    "bTolerateFailures s3 = bTolerateFailures s1"
    using mifare_cmd_writeD [OF c] by (simp_all add: s2_def)
  have blk: "write_sector_block d wbz i bF s =
      (if ok = False then finish_block True s3 else finish_block bF1 s3)"
    using assms True c by (simp add: write_sector_block_def Let_def s2_def)
  show ?thesis
    using f True
    by (intro exI [of _ "[MifareCmd MC_WRITE i (abtData (mp s2)) ok]"])
      (auto simp: blk finish_block_def)
next
  case False
  show ?thesis
  proof (cases "i = 0 \<and> wbz = 0 \<and> \<not> magic2 s1")
    case True
    have "write_sector_block d wbz i bF s = Continue bF1 s1"
      using assms False True by (simp add: write_sector_block_def)
    then show ?thesis
      using False by (intro exI [of _ "[]"]) simp
  next
    case ns: False
    show ?thesis
    proof (cases bF1)
      case True
      have "write_sector_block d wbz i bF s = finish_block True s1"
        using assms False ns True by (auto simp: write_sector_block_def)
      then show ?thesis
        using True by (intro exI [of _ "[]"]) (auto simp: finish_block_def)
    next
      case nf: False
      define s2 where "s2 = s1\<lparr>mp := (mp s1)\<lparr>abtData :=
                       memcpy_at 0 16 (mtDump s1 i) (abtData (mp s1))\<rparr>\<rparr>"
      have f2: "trace s2 = trace s1" "bTolerateFailures s2 = bTolerateFailures s1"
        "magic2 s2 = magic2 s1"
        by (simp_all add: s2_def)
      show ?thesis
      proof (cases "i = 0 \<and> bcc_xor (abtData (mp s2)) \<noteq> 0 \<and> \<not> magic2 s2")
        case True
        have "write_sector_block d wbz i bF s = Return False s2"
          using assms False ns nf True by (auto simp: write_sector_block_def Let_def s2_def)
        then show ?thesis
          using f2 nf True by (intro exI [of _ "[]"]) simp
      next
        case nb: False
        obtain ok s3 where c: "nfc_initiator_mifare_cmd d MC_WRITE i s2 = (ok, s3)"
          by (cases "nfc_initiator_mifare_cmd d MC_WRITE i s2")
        have f: "trace s3 = trace s1 @ [MifareCmd MC_WRITE i (abtData (mp s2)) ok]"
          "bTolerateFailures s3 = bTolerateFailures s1"
          using mifare_cmd_writeD [OF c] f2 by simp_all
        have blk: "write_sector_block d wbz i bF s =
            (if \<not> ok then finish_block True s3 else finish_block bF1 s3)"
          using assms False ns nf nb c
          by (auto simp: write_sector_block_def Let_def s2_def)
        show ?thesis
          using f nf
          by (intro exI [of _ "[MifareCmd MC_WRITE i (abtData (mp s2)) ok]"])
            (auto simp: blk finish_block_def)
      qed
    qed
  qed
qed

declare write_sector_loop.simps [simp del]

lemma write_run:
  "(\<forall>j. i \<le> j \<and> j \<le> T \<longrightarrow> \<not> is_first_block (of_nat j)) \<Longrightarrow> 0 < i \<Longrightarrow>
   \<exists>evs. trace (snd (write_sector_loop d wbz T i bF s)) = trace s @ evs \<and>
     (\<forall>e \<in> set evs. is_write e) \<and>
     (bTolerateFailures s \<longrightarrow> propagates bF evs) \<and>
     (\<not> bTolerateFailures s \<longrightarrow>
        (\<forall>e \<in> set (butlast evs). \<not> is_failed_write e) \<and>
        ((\<exists>e \<in> set evs. is_failed_write e) \<longrightarrow> \<not> fst (write_sector_loop d wbz T i bF s)))"
proof (induction d wbz T i bF s rule: write_sector_loop.induct)
  case (1 d wbz T i bF s)
  show ?case
  proof (cases "i \<le> T")
    case False
    then have "write_sector_loop d wbz T i bF s = (True, s)"
      by (simp add: write_sector_loop.simps [of d wbz T i bF s])
    then show ?thesis
      by (intro exI [of _ "[]"]) simp
  next
    case True
    have nf: "\<not> is_first_block (of_nat i)"
      using "1.prems"(1) True by simp
    have first: "write_sector_first d wbz i bF s = (True, bF, s)"
      by (rule write_first_not_first [OF nf])
    define fl where "fl = write_sector_block d wbz i bF s"
    define s' where "s' = flow_state fl"
    obtain w where t: "trace s' = trace s @ w"
      and tol: "bTolerateFailures s' = bTolerateFailures s"
      and shape: "w = [] \<or> (\<exists>p ok. w = [MifareCmd MC_WRITE i p ok])"
      and after: "bF \<and> w \<noteq> [] \<longrightarrow> is_trailer_block (of_nat i)"
      and flow: "fl = Return False s' \<or> fl = Continue (bF \<or> (\<exists>e \<in> set w. is_failed_write e)) s'"
      and strict: "(\<exists>e \<in> set w. is_failed_write e) \<and> \<not> bTolerateFailures s \<longrightarrow> fl = Return False s'"
      and lenient: "bTolerateFailures s \<and> (0 < i \<or> magic2 s) \<longrightarrow>
          fl = Continue (bF \<or> (\<exists>e \<in> set w. is_failed_write e)) s'"
      using write_step [OF first] unfolding fl_def s'_def by blast
    have ww: "\<forall>e \<in> set w. is_write e"
      using shape by auto
    have pw: "propagates bF w = True"
      using shape after by auto
    show ?thesis
    proof (cases "fl = Return False s'")
      case ret: True
      have loop: "write_sector_loop d wbz T i bF s = (False, s')"
        using True ret by (simp add: write_sector_loop.simps [of d wbz T i bF s] fl_def [symmetric])
      have nt: "\<not> bTolerateFailures s"
        using lenient ret "1.prems"(2) by auto
      have "butlast w = []"
        using shape by auto
      then show ?thesis
        using loop t ww nt by (intro exI [of _ w]) simp
    next
      case False
      define bF' where "bF' = (bF \<or> (\<exists>e \<in> set w. is_failed_write e))"
      have cont: "fl = Continue bF' s'"
        using flow False by (simp add: bF'_def)
      have loop: "write_sector_loop d wbz T i bF s = write_sector_loop d wbz T (i + 1) bF' s'"
        using True cont by (simp add: write_sector_loop.simps [of d wbz T i bF s] fl_def [symmetric])
      have rest: "\<forall>j. i + 1 \<le> j \<and> j \<le> T \<longrightarrow> \<not> is_first_block (of_nat j)"
        using "1.prems"(1) by simp
      obtain evs where ih: "trace (snd (write_sector_loop d wbz T (i + 1) bF' s')) = trace s' @ evs"
        "\<forall>e \<in> set evs. is_write e"
        "bTolerateFailures s' \<longrightarrow> propagates bF' evs"
        "\<not> bTolerateFailures s' \<longrightarrow>
           (\<forall>e \<in> set (butlast evs). \<not> is_failed_write e) \<and>
           ((\<exists>e \<in> set evs. is_failed_write e) \<longrightarrow>
              \<not> fst (write_sector_loop d wbz T (i + 1) bF' s'))"
        using "1.IH" [OF True cont [unfolded fl_def] rest] by auto
      have g1: "trace (snd (write_sector_loop d wbz T i bF s)) = trace s @ (w @ evs)"
        using loop ih(1) t by simp
      have g2: "\<forall>e \<in> set (w @ evs). is_write e"
        using ww ih(2) by auto
      have g3: "bTolerateFailures s \<longrightarrow> propagates bF (w @ evs)"
      proof
        assume "bTolerateFailures s"
        then have p: "propagates bF' evs" using ih(3) tol by simp
        show "propagates bF (w @ evs)"
        proof (cases "w = []")
          case True
          then show ?thesis using p by (simp add: bF'_def)
        next
          case False
          then obtain p' ok where w: "w = [MifareCmd MC_WRITE i p' ok]"
            using shape by auto
          show ?thesis
            using p after by (auto simp: w bF'_def)
        qed
      qed
      have g4: "\<not> bTolerateFailures s \<longrightarrow>
        (\<forall>e \<in> set (butlast (w @ evs)). \<not> is_failed_write e) \<and>
        ((\<exists>e \<in> set (w @ evs). is_failed_write e) \<longrightarrow> \<not> fst (write_sector_loop d wbz T i bF s))"
      proof
        assume nt: "\<not> bTolerateFailures s"
        have wok: "\<forall>e \<in> set w. \<not> is_failed_write e"
          using strict nt False by blast
        have i1: "\<forall>e \<in> set (butlast evs). \<not> is_failed_write e"
          and i2: "(\<exists>e \<in> set evs. is_failed_write e) \<longrightarrow>
              \<not> fst (write_sector_loop d wbz T (i + 1) bF' s')"
          using ih(4) nt tol by simp_all
        have b: "\<forall>e \<in> set (butlast (w @ evs)). \<not> is_failed_write e"
        proof (cases "evs = []")
          case True
          then show ?thesis using wok by (auto dest: in_set_butlastD)
        next
          case False
          then show ?thesis using wok i1 by (auto simp: butlast_append)
        qed
        have "(\<exists>e \<in> set (w @ evs). is_failed_write e) \<longrightarrow> \<not> fst (write_sector_loop d wbz T i bF s)"
          using wok i2 loop by auto
        with b show "(\<forall>e \<in> set (butlast (w @ evs)). \<not> is_failed_write e) \<and>
          ((\<exists>e \<in> set (w @ evs). is_failed_write e) \<longrightarrow> \<not> fst (write_sector_loop d wbz T i bF s))"
          by simp
      qed
      show ?thesis
        using g1 g2 g3 g4 by blast
    qed
  qed
qed

lemma propagates_skip:
  "\<forall>e \<in> set pre. \<not> is_write e \<Longrightarrow> propagates f (pre @ es) = propagates f es"
proof (induction pre arbitrary: f)
  case Nil
  then show ?case by simp
next
  case (Cons x xs)
  have "\<not> is_write x" using Cons.prems by simp
  then have "\<not> is_failed_write x" by (cases x) auto
  then show ?case
    using Cons \<open>\<not> is_write x\<close> by simp
qed

lemma propagates_after_failure:
  "propagates True es \<Longrightarrow> \<forall>e \<in> set es. is_write e \<longrightarrow> is_trailer_write e"
  by (induction es) auto

lemma propagates_split:
  "propagates f (pre @ e # post) \<Longrightarrow> is_failed_write e \<Longrightarrow> propagates True post"
  by (induction pre arbitrary: f) auto

lemma butlast_append_cases:
  "e \<in> set (butlast (xs @ ys)) \<Longrightarrow> e \<in> set xs \<or> e \<in> set (butlast ys)"
  by (cases "ys = []") (auto simp: butlast_append dest: in_set_butlastD)

lemma not_first_in_sector:
  assumes "q < 256"
  shows "\<forall>j. 4 * q + 1 \<le> j \<and> j \<le> 4 * q + 3 \<longrightarrow> \<not> is_first_block (of_nat j)"
proof (intro allI impI)
  fix j :: nat
  assume r: "4 * q + 1 \<le> j \<and> j \<le> 4 * q + 3"
  have "j < 4294967296" using r assms by simp
  then have u: "unat (of_nat j :: uint32) = j"
    by (simp add: unat_of_nat)
  have m: "j mod 4 \<noteq> 0"
    using r by presburger
  have "j mod 16 mod 4 = j mod 4"
    by (rule mod_mod_cancel) simp
  with m have "j mod 16 \<noteq> 0" by auto
  then show "\<not> is_first_block (of_nat j)"
    using m by (simp add: is_first_block_unat u)
qed

lemma write_pass:
  assumes "q < 256"
  shows "\<exists>evs. trace (snd (write_sector_loop d wbz (4 * q + 3) (4 * q) False s)) = trace s @ evs \<and>
     write_shape (bTolerateFailures s) (fst (write_sector_loop d wbz (4 * q + 3) (4 * q) False s)) evs"
proof -
  obtain entered bF1 s1 where first: "write_sector_first d wbz (4 * q) False s = (entered, bF1, s1)"
    by (cases "write_sector_first d wbz (4 * q) False s") auto
  obtain pre where p: "trace s1 = trace s @ pre" "\<forall>e \<in> set pre. \<not> is_write e"
    "bTolerateFailures s1 = bTolerateFailures s" "\<not> bF1"
    using write_first_effects [OF first] by blast
  have pnf: "\<forall>e \<in> set pre. \<not> is_failed_write e"
  proof
    fix e assume "e \<in> set pre"
    then have "\<not> is_write e" using p(2) by simp
    then show "\<not> is_failed_write e" by (cases e) auto
  qed
  have le: "4 * q \<le> 4 * q + 3" by simp
  show ?thesis
  proof (cases entered)
    case False
    have "write_sector_block d wbz (4 * q) False s = Return False s1"
      using first False by (simp add: write_sector_block_def)
    then have loop: "write_sector_loop d wbz (4 * q + 3) (4 * q) False s = (False, s1)"
      by (simp add: write_sector_loop.simps [of d wbz "4 * q + 3" "4 * q" False s])
    have "write_shape (bTolerateFailures s) False pre"
      using propagates_skip [OF p(2), of False "[]"] pnf
      by (auto simp: write_shape_def dest: in_set_butlastD)
    then show ?thesis
      using loop p(1) by (intro exI [of _ pre]) simp
  next
    case True
    define fl where "fl = write_sector_block d wbz (4 * q) False s"
    define s' where "s' = flow_state fl"
    have first': "write_sector_first d wbz (4 * q) False s = (True, bF1, s1)"
      using first True by simp
    obtain w where t: "trace s' = trace s1 @ w"
      and tol: "bTolerateFailures s' = bTolerateFailures s1"
      and shape: "w = [] \<or> (\<exists>p ok. w = [MifareCmd MC_WRITE (4 * q) p ok])"
      and flow: "fl = Return False s' \<or> fl = Continue (bF1 \<or> (\<exists>e \<in> set w. is_failed_write e)) s'"
      and strict: "(\<exists>e \<in> set w. is_failed_write e) \<and> \<not> bTolerateFailures s1 \<longrightarrow> fl = Return False s'"
      using write_step [OF first'] unfolding fl_def s'_def by blast
    have pw: "propagates False w"
      using shape by auto
    show ?thesis
    proof (cases "fl = Return False s'")
      case ret: True
      have loop: "write_sector_loop d wbz (4 * q + 3) (4 * q) False s = (False, s')"
        using ret by (simp add: write_sector_loop.simps [of d wbz "4 * q + 3" "4 * q" False s]
            fl_def [symmetric])
      have b: "\<forall>e \<in> set (butlast (pre @ w)). \<not> is_failed_write e"
        using shape pnf by (auto dest: in_set_butlastD)
      have "write_shape (bTolerateFailures s) False (pre @ w)"
        using propagates_skip [OF p(2), of False w] pw b by (simp add: write_shape_def)
      then show ?thesis
        using loop p(1) t by (intro exI [of _ "pre @ w"]) simp
    next
      case False
      define bF' where "bF' = (\<exists>e \<in> set w. is_failed_write e)"
      have cont: "fl = Continue bF' s'"
        using flow False p(4) by (simp add: bF'_def)
      have loop: "write_sector_loop d wbz (4 * q + 3) (4 * q) False s =
          write_sector_loop d wbz (4 * q + 3) (4 * q + 1) bF' s'"
        using cont by (simp add: write_sector_loop.simps [of d wbz "4 * q + 3" "4 * q" False s]
            fl_def [symmetric])
      obtain evs where run: "trace (snd (write_sector_loop d wbz (4 * q + 3) (4 * q + 1) bF' s')) =
          trace s' @ evs"
        "bTolerateFailures s' \<longrightarrow> propagates bF' evs"
        "\<not> bTolerateFailures s' \<longrightarrow>
           (\<forall>e \<in> set (butlast evs). \<not> is_failed_write e) \<and>
           ((\<exists>e \<in> set evs. is_failed_write e) \<longrightarrow>
              \<not> fst (write_sector_loop d wbz (4 * q + 3) (4 * q + 1) bF' s'))"
        using write_run [OF not_first_in_sector [OF assms], of d wbz bF' s'] by auto
      have tols: "bTolerateFailures s' = bTolerateFailures s"
        using tol p(3) by simp
      have g1: "trace (snd (write_sector_loop d wbz (4 * q + 3) (4 * q) False s)) =
          trace s @ (pre @ w @ evs)"
        using loop run(1) t p(1) by simp
      have g2: "bTolerateFailures s \<longrightarrow> propagates False (pre @ w @ evs)"
      proof
        assume "bTolerateFailures s"
        then have "propagates bF' evs" using run(2) tols by simp
        then have "propagates False (w @ evs)"
          using shape by (auto simp: bF'_def)
        then show "propagates False (pre @ w @ evs)"
          using propagates_skip [OF p(2), of False "w @ evs"] by simp
      qed
      have g3: "\<not> bTolerateFailures s \<longrightarrow>
         (\<forall>e \<in> set (butlast (pre @ w @ evs)). \<not> is_failed_write e) \<and>
         ((\<exists>e \<in> set (pre @ w @ evs). is_failed_write e) \<longrightarrow>
            \<not> fst (write_sector_loop d wbz (4 * q + 3) (4 * q) False s))"
      proof
        assume nt: "\<not> bTolerateFailures s"
        have wok: "\<forall>e \<in> set w. \<not> is_failed_write e"
          using strict nt p(3) False by blast
        have i1: "\<forall>e \<in> set (butlast evs). \<not> is_failed_write e"
          and i2: "(\<exists>e \<in> set evs. is_failed_write e) \<longrightarrow>
              \<not> fst (write_sector_loop d wbz (4 * q + 3) (4 * q + 1) bF' s')"
          using run(3) nt tols by simp_all
        have b: "\<forall>e \<in> set (butlast ((pre @ w) @ evs)). \<not> is_failed_write e"
          using butlast_append_cases [of _ "pre @ w" evs] pnf wok i1 by auto
        have "(\<exists>e \<in> set (pre @ w @ evs). is_failed_write e) \<longrightarrow>
            \<not> fst (write_sector_loop d wbz (4 * q + 3) (4 * q) False s)"
          using pnf wok i2 loop by auto
        with b show "(\<forall>e \<in> set (butlast (pre @ w @ evs)). \<not> is_failed_write e) \<and>
         ((\<exists>e \<in> set (pre @ w @ evs). is_failed_write e) \<longrightarrow>
            \<not> fst (write_sector_loop d wbz (4 * q + 3) (4 * q) False s))"
          by simp
      qed
      have "write_shape (bTolerateFailures s)
          (fst (write_sector_loop d wbz (4 * q + 3) (4 * q) False s)) (pre @ w @ evs)"
        unfolding write_shape_def using g2 g3 by blast
      then show ?thesis
        using g1 by blast
    qed
  qed
qed

lemma write_sector_eq:
  "write_sector d sec wbz s =
     (if wbz \<noteq> 0 then
        (if fst (unlock_card d s)
         then write_sector_loop d wbz (4 * unat sec + 3) (4 * unat sec) False (snd (unlock_card d s))
         else (False, snd (unlock_card d s)))
      else write_sector_loop d wbz (4 * unat sec + 3) (4 * unat sec) False s)"
proof -
  have u: "unat sec = nat (uint sec)"
    by (rule unat_eq_nat_uint)
  have "0 \<le> uint sec" by simp
  moreover have "(uint sec + 1) * 4 - 1 = 4 * uint sec + 3"
    by simp
  ultimately have "nat ((uint sec + 1) * 4 - 1) = 4 * nat (uint sec) + 3"
    by (simp add: nat_add_distrib nat_mult_distrib)
  then have t: "nat ((uint sec + 1) * 4 - 1) = 4 * unat sec + 3"
    by (simp only: u)
  have "nat (int (4 * n + 3) - 4 + 1) = 4 * n" for n :: nat
    by linarith
  then have f: "nat (int (4 * unat sec + 3) - SECTOR_SIZE + 1) = 4 * unat sec"
    unfolding SECTOR_SIZE_def by blast
  show ?thesis
    unfolding write_sector_def Let_def t f by (simp split: prod.split)
qed

lemma unlock_card_no_write:
  "\<exists>pre. trace (snd (unlock_card d s)) = trace s @ pre \<and> (\<forall>e \<in> set pre. \<not> is_write e) \<and>
     bTolerateFailures (snd (unlock_card d s)) = bTolerateFailures s \<and>
     magic2 (snd (unlock_card d s)) = magic2 s \<and>
     mtDump (snd (unlock_card d s)) = mtDump s"
proof (cases "magic2 s")
  case True
  then show ?thesis by (simp add: unlock_card_def)
next
  case False
  obtain r1 r2 r3 r4 r5 r6 r7 where
    t: "trace (snd (unlock_card d s)) =
       trace s @ take (unlock_stop r1 r2 r4 r5 r6)
         (unlock_calls (take 4 (crc_append d (abtHalt s) 2)) r1 r2 r3 r4 r5 r6 r7)"
    and f: "bTolerateFailures (snd (unlock_card d s)) = bTolerateFailures s"
      "magic2 (snd (unlock_card d s)) = magic2 s" "mtDump (snd (unlock_card d s)) = mtDump s"
    using unlock_card_run [OF False, of d] by blast
  have "\<forall>e \<in> set (unlock_calls (take 4 (crc_append d (abtHalt s) 2)) r1 r2 r3 r4 r5 r6 r7).
      \<not> is_write e"
    by (simp add: unlock_calls_def)
  then have "\<forall>e \<in> set (take (unlock_stop r1 r2 r4 r5 r6)
         (unlock_calls (take 4 (crc_append d (abtHalt s) 2)) r1 r2 r3 r4 r5 r6 r7)). \<not> is_write e"
    by (meson in_set_takeD)
  then show ?thesis
    using t f by blast
qed

lemma write_shape_prefix:
  assumes "\<forall>e \<in> set pre. \<not> is_write e" and "write_shape tol r evs"
  shows "write_shape tol r (pre @ evs)"
proof -
  have pnf: "\<forall>e \<in> set pre. \<not> is_failed_write e"
  proof
    fix e assume "e \<in> set pre"
    then have "\<not> is_write e" using assms(1) by simp
    then show "\<not> is_failed_write e" by (cases e) auto
  qed
  have "\<forall>e \<in> set (butlast (pre @ evs)). \<not> is_failed_write e"
    if "\<forall>e \<in> set (butlast evs). \<not> is_failed_write e"
    using butlast_append_cases [of _ pre evs] pnf that by auto
  then show ?thesis
    using assms(2) propagates_skip [OF assms(1), of False evs] pnf
    unfolding write_shape_def by auto
qed

lemma write_sector_shape:
  "write_shape (bTolerateFailures s) (fst (write_sector d sec wbz s))
     (new_events s (snd (write_sector d sec wbz s)))"
proof -
  have q: "unat sec < 256"
    using unsigned_less [of sec] by simp
  show ?thesis
  proof (cases "wbz = 0")
    case True
    obtain evs where e: "trace (snd (write_sector d sec wbz s)) = trace s @ evs"
      "write_shape (bTolerateFailures s) (fst (write_sector d sec wbz s)) evs"
      using write_pass [OF q, of d wbz s] True by (auto simp: write_sector_eq)
    show ?thesis
      using e(2) by (simp add: new_events_append [OF e(1)])
  next
    case False
    obtain pre where u: "trace (snd (unlock_card d s)) = trace s @ pre"
      "\<forall>e \<in> set pre. \<not> is_write e"
      "bTolerateFailures (snd (unlock_card d s)) = bTolerateFailures s"
      using unlock_card_no_write [of d s] by blast
    show ?thesis
    proof (cases "fst (unlock_card d s)")
      case no: False
      have "write_shape (bTolerateFailures s) False (pre @ [])"
        by (rule write_shape_prefix [OF u(2)]) (simp add: write_shape_def)
      moreover have "write_sector d sec wbz s = (False, snd (unlock_card d s))"
        using False no by (simp add: write_sector_eq)
      ultimately show ?thesis
        using u(1) by (simp add: new_events_def)
    next
      case True
      obtain evs where e:
        "trace (snd (write_sector_loop d wbz (4 * unat sec + 3) (4 * unat sec) False (snd (unlock_card d s)))) =
           trace (snd (unlock_card d s)) @ evs"
        "write_shape (bTolerateFailures (snd (unlock_card d s)))
           (fst (write_sector_loop d wbz (4 * unat sec + 3) (4 * unat sec) False (snd (unlock_card d s)))) evs"
        using write_pass [OF q, of d wbz "snd (unlock_card d s)"] by blast
      have ws: "write_sector d sec wbz s =
          write_sector_loop d wbz (4 * unat sec + 3) (4 * unat sec) False (snd (unlock_card d s))"
        using False True by (simp add: write_sector_eq)
      have t: "trace (snd (write_sector d sec wbz s)) = trace s @ (pre @ evs)"
        using e(1) u(1) ws by simp
      have "write_shape (bTolerateFailures s) (fst (write_sector d sec wbz s)) (pre @ evs)"
        using write_shape_prefix [OF u(2)] e(2) u(3) ws by simp
      then show ?thesis
        by (simp add: new_events_append [OF t])
    qed
  qed
qed

text \<open>
  C3, as amended. In \<open>write_sector\<close>, for every sector: when failures are tolerated,
  after a write command has failed every write command that the pass still issues is for
  a trailer block, so every later data block of the group is skipped without a write
  command; when failures are not tolerated, the failed write is the last call of the pass
  and \<open>write_sector\<close> returns false.
\<close>

theorem write_sector_failure_propagation:
  "new_events s (snd (write_sector d sec wbz s)) = pre @ MifareCmd MC_WRITE b p False # post \<longrightarrow>
     (bTolerateFailures s \<longrightarrow> (\<forall>e \<in> set post. is_write e \<longrightarrow> is_trailer_write e)) \<and>
     (\<not> bTolerateFailures s \<longrightarrow> post = [] \<and> \<not> fst (write_sector d sec wbz s))"
proof
  assume n: "new_events s (snd (write_sector d sec wbz s)) = pre @ MifareCmd MC_WRITE b p False # post"
  note sh = write_sector_shape [of s d sec wbz, unfolded n write_shape_def]
  have fw: "is_failed_write (MifareCmd MC_WRITE b p False)" by simp
  have a: "\<forall>e \<in> set post. is_write e \<longrightarrow> is_trailer_write e" if "bTolerateFailures s"
    using sh that propagates_split [OF _ fw, of False pre post] propagates_after_failure by blast
  have b: "post = [] \<and> \<not> fst (write_sector d sec wbz s)" if nt: "\<not> bTolerateFailures s"
  proof -
    have bl: "\<forall>e \<in> set (butlast (pre @ MifareCmd MC_WRITE b p False # post)). \<not> is_failed_write e"
      and res: "\<not> fst (write_sector d sec wbz s)"
      using sh nt fw by auto
    have "post = []"
    proof (rule ccontr)
      assume "post \<noteq> []"
      then have "MifareCmd MC_WRITE b p False \<in> set (butlast (pre @ MifareCmd MC_WRITE b p False # post))"
        by (simp add: butlast_append)
      then show False using bl fw by blast
    qed
    then show ?thesis using res by simp
  qed
  show "(bTolerateFailures s \<longrightarrow> (\<forall>e \<in> set post. is_write e \<longrightarrow> is_trailer_write e)) \<and>
     (\<not> bTolerateFailures s \<longrightarrow> post = [] \<and> \<not> fst (write_sector d sec wbz s))"
    using a b by blast
qed

lemmas write_eval =
  write_sector_loop.simps write_sector_block_def write_sector_first_def
  is_first_block_unat is_trailer_block_unat reselect_after_failure_def authenticate_def Let_def
  authenticate_guess.simps num_keys_9 candidate_key_def keys_def
  nfc_initiator_mifare_cmd_def mifare_cmd_params_def finish_block_def remember_key_def
  sim_device_def sim_state_def sim_target_def key_ff_def memcpy_at_def
  abtKeyA_def abtKeyB_def abtAccessBits_def set_abtKeyA_def set_abtKeyB_def
  replicate_add [symmetric]

lemma worn_tag_write_loop:
  "fst (write_sector_loop worn_tag 0 7 4 False sim_state) \<and>
   trace (snd (write_sector_loop worn_tag 0 7 4 False sim_state)) =
     [MifareCmd MC_AUTH_A 4 [0xff, 0xff, 0xff, 0xff, 0xff, 0xff, 0x04, 0x12, 0x34, 0x56] True,
      MifareCmd MC_WRITE 4 (replicate 16 0) True,
      MifareCmd MC_WRITE 5 (replicate 16 0) False,
      MifareCmd MC_WRITE 7 (replicate 16 0) True]"
  by (simp add: write_eval worn_tag_def block_5_unwritable_def)

lemma worn_tag_write_sector_1:
  "fst (write_sector worn_tag 1 0 sim_state) \<and>
   trace (snd (write_sector worn_tag 1 0 sim_state)) =
     [MifareCmd MC_AUTH_A 4 [0xff, 0xff, 0xff, 0xff, 0xff, 0xff, 0x04, 0x12, 0x34, 0x56] True,
      MifareCmd MC_WRITE 4 (replicate 16 0) True,
      MifareCmd MC_WRITE 5 (replicate 16 0) False,
      MifareCmd MC_WRITE 7 (replicate 16 0) True]"
  using worn_tag_write_loop by (simp add: write_sector_eq)

lemma worn_tag_strict_write_loop:
  "\<not> fst (write_sector_loop worn_tag 0 7 4 False strict_state) \<and>
   trace (snd (write_sector_loop worn_tag 0 7 4 False strict_state)) =
     [MifareCmd MC_AUTH_A 4 [0xff, 0xff, 0xff, 0xff, 0xff, 0xff, 0x04, 0x12, 0x34, 0x56] True,
      MifareCmd MC_WRITE 4 (replicate 16 0) True,
      MifareCmd MC_WRITE 5 (replicate 16 0) False]"
  by (simp add: write_eval worn_tag_def block_5_unwritable_def strict_state_def)

lemma worn_tag_strict_write_sector_1:
  "\<not> fst (write_sector worn_tag 1 0 strict_state) \<and>
   trace (snd (write_sector worn_tag 1 0 strict_state)) =
     [MifareCmd MC_AUTH_A 4 [0xff, 0xff, 0xff, 0xff, 0xff, 0xff, 0x04, 0x12, 0x34, 0x56] True,
      MifareCmd MC_WRITE 4 (replicate 16 0) True,
      MifareCmd MC_WRITE 5 (replicate 16 0) False]"
  using worn_tag_strict_write_loop by (simp add: write_sector_eq)

text \<open>
  The claim as stated fails on the trailer: with failures tolerated, after the write of
  block 5 has failed, block 6 is skipped but the write command for the trailer, block 7,
  is issued.
\<close>

theorem write_sector_trailer_counterexample:
  "bTolerateFailures sim_state \<and>
   trace (snd (write_sector worn_tag 1 0 sim_state)) =
     [MifareCmd MC_AUTH_A 4 [0xff, 0xff, 0xff, 0xff, 0xff, 0xff, 0x04, 0x12, 0x34, 0x56] True,
      MifareCmd MC_WRITE 4 (replicate 16 0) True,
      MifareCmd MC_WRITE 5 (replicate 16 0) False,
      MifareCmd MC_WRITE 7 (replicate 16 0) True] \<and>
   is_trailer_block 7"
  using worn_tag_write_sector_1
  by (simp add: sim_state_def is_trailer_block_unat)

theorem write_sector_failure_propagation_witness:
  "bTolerateFailures sim_state \<and>
   new_events sim_state (snd (write_sector worn_tag 1 0 sim_state)) =
     [MifareCmd MC_AUTH_A 4 [0xff, 0xff, 0xff, 0xff, 0xff, 0xff, 0x04, 0x12, 0x34, 0x56] True,
      MifareCmd MC_WRITE 4 (replicate 16 0) True] @
     MifareCmd MC_WRITE 5 (replicate 16 0) False # [MifareCmd MC_WRITE 7 (replicate 16 0) True] \<and>
   is_trailer_write (MifareCmd MC_WRITE 7 (replicate 16 0) True) \<and>
   \<not> bTolerateFailures strict_state \<and>
   new_events strict_state (snd (write_sector worn_tag 1 0 strict_state)) =
     [MifareCmd MC_AUTH_A 4 [0xff, 0xff, 0xff, 0xff, 0xff, 0xff, 0x04, 0x12, 0x34, 0x56] True,
      MifareCmd MC_WRITE 4 (replicate 16 0) True] @
     MifareCmd MC_WRITE 5 (replicate 16 0) False # [] \<and>
   \<not> fst (write_sector worn_tag 1 0 strict_state)"
proof -
  have t0: "trace sim_state = []" "trace strict_state = []"
    by (simp_all add: strict_state_def sim_state_def)
  have tol: "bTolerateFailures sim_state" "\<not> bTolerateFailures strict_state"
    by (simp_all add: strict_state_def sim_state_def)
  have n1: "new_events sim_state (snd (write_sector worn_tag 1 0 sim_state)) =
     [MifareCmd MC_AUTH_A 4 [0xff, 0xff, 0xff, 0xff, 0xff, 0xff, 0x04, 0x12, 0x34, 0x56] True,
      MifareCmd MC_WRITE 4 (replicate 16 0) True] @
     MifareCmd MC_WRITE 5 (replicate 16 0) False # [MifareCmd MC_WRITE 7 (replicate 16 0) True]"
    using worn_tag_write_sector_1 by (simp add: new_events_def t0)
  have n2: "new_events strict_state (snd (write_sector worn_tag 1 0 strict_state)) =
     [MifareCmd MC_AUTH_A 4 [0xff, 0xff, 0xff, 0xff, 0xff, 0xff, 0x04, 0x12, 0x34, 0x56] True,
      MifareCmd MC_WRITE 4 (replicate 16 0) True] @
     MifareCmd MC_WRITE 5 (replicate 16 0) False # []"
    using worn_tag_strict_write_sector_1 by (simp add: new_events_def t0)
  show ?thesis
    using write_sector_failure_propagation [of sim_state worn_tag 1 0
        "[MifareCmd MC_AUTH_A 4 [0xff, 0xff, 0xff, 0xff, 0xff, 0xff, 0x04, 0x12, 0x34, 0x56] True,
          MifareCmd MC_WRITE 4 (replicate 16 0) True]" 5 "replicate 16 0"
        "[MifareCmd MC_WRITE 7 (replicate 16 0) True]"]
      write_sector_failure_propagation [of strict_state worn_tag 1 0
        "[MifareCmd MC_AUTH_A 4 [0xff, 0xff, 0xff, 0xff, 0xff, 0xff, 0x04, 0x12, 0x34, 0x56] True,
          MifareCmd MC_WRITE 4 (replicate 16 0) True]" 5 "replicate 16 0" "[]"]
      n1 n2 tol
    by simp
qed

lemma xor_zero_eq: "(a XOR b = 0) = (a = b)" for a b :: byte
proof
  assume "a XOR b = 0"
  then have "a XOR (a XOR b) = a XOR 0" by simp
  then show "a = b" by (simp add: xor.assoc [symmetric])
next
  assume "a = b"
  then show "a XOR b = 0" by simp
qed

lemma bcc_of_uid:
  assumes "take 4 blk = [0x04, 0x12, 0x34, 0x56]"
  shows "(bcc_xor blk = 0) = (blk ! 4 = 0x74)"
proof -
  have n: "blk ! 0 = 0x04" "blk ! Suc 0 = 0x12" "blk ! 2 = 0x34" "blk ! 3 = 0x56"
    using nth_take [of 0 4 blk] nth_take [of 1 4 blk] nth_take [of 2 4 blk]
      nth_take [of 3 4 blk] assms by simp_all
  have "bcc_xor blk = 0x74 XOR blk ! 4"
    by (simp add: bcc_xor_def n xor.assoc [symmetric])
  then show ?thesis
    using xor_zero_eq [of "0x74" "blk ! 4"] by auto
qed

lemma bcc_xor_memcpy:
  "length blk = 16 \<Longrightarrow> bcc_xor (memcpy_at 0 16 blk dst) = bcc_xor blk"
  by (simp add: bcc_xor_def memcpy_at_def nth_append)

lemma write_block_zero_step:
  assumes "wbz \<noteq> 0" and "\<not> magic2 s" and "length (mtDump s 0) = 16"
  shows "(bcc_xor (mtDump s 0) \<noteq> 0 \<longrightarrow>
            \<not> fst (write_sector_loop d wbz 3 0 False s) \<and>
            trace (snd (write_sector_loop d wbz 3 0 False s)) = trace s) \<and>
         (bcc_xor (mtDump s 0) = 0 \<longrightarrow>
            (\<exists>p ok evs. trace (snd (write_sector_loop d wbz 3 0 False s)) =
               trace s @ MifareCmd MC_WRITE 0 p ok # evs))"
proof -
  define s2 where "s2 = s\<lparr>mp := (mp s)\<lparr>abtData :=
                       memcpy_at 0 16 (mtDump s 0) (abtData (mp s))\<rparr>\<rparr>"
  have first: "write_sector_first d wbz 0 False s = (True, False, s)"
    by (rule write_first_unlocked [OF assms(1)])
  have nt: "\<not> is_trailer_block (of_nat 0)"
    by (simp add: is_trailer_block_unat)
  have bcc: "bcc_xor (abtData (mp s2)) = bcc_xor (mtDump s 0)"
    using bcc_xor_memcpy [OF assms(3)] by (simp add: s2_def)
  have m2: "magic2 s2 = magic2 s" "trace s2 = trace s"
    by (simp_all add: s2_def)
  show ?thesis
  proof (cases "bcc_xor (mtDump s 0) = 0")
    case False
    have "write_sector_block d wbz 0 False s = Return False s2"
      using first nt assms(1,2) False
      by (simp add: write_sector_block_def Let_def bcc_xor_memcpy [OF assms(3)] s2_def)
    then have "write_sector_loop d wbz 3 0 False s = (False, s2)"
      by (simp add: write_sector_loop.simps [of d wbz 3 0 False s])
    then show ?thesis
      using False m2 by simp
  next
    case True
    obtain ok s3 where c: "nfc_initiator_mifare_cmd d MC_WRITE 0 s2 = (ok, s3)"
      by (cases "nfc_initiator_mifare_cmd d MC_WRITE 0 s2")
    have t3: "trace s3 = trace s @ [MifareCmd MC_WRITE 0 (abtData (mp s2)) ok]"
      using mifare_cmd_writeD [OF c] m2 by simp
    have blk: "write_sector_block d wbz 0 False s =
        (if \<not> ok then finish_block True s3 else finish_block False s3)"
      using first nt assms(1,2) True c [unfolded s2_def]
      by (simp add: write_sector_block_def Let_def bcc_xor_memcpy [OF assms(3)])
    have nf: "\<forall>j. 0 + 1 \<le> j \<and> j \<le> 3 \<longrightarrow> \<not> is_first_block (of_nat j)"
      using not_first_in_sector [of 0] by simp
    have "\<exists>evs. trace (snd (write_sector_loop d wbz 3 0 False s)) = trace s3 @ evs"
    proof (cases "write_sector_block d wbz 0 False s")
      case (Return r s')
      then have "s' = s3"
        using blk by (auto simp: finish_block_def split: if_splits)
      then have "write_sector_loop d wbz 3 0 False s = (r, s3)"
        using Return by (simp add: write_sector_loop.simps [of d wbz 3 0 False s])
      then show ?thesis by simp
    next
      case (Continue bF' s')
      then have "s' = s3"
        using blk by (auto simp: finish_block_def split: if_splits)
      then have "write_sector_loop d wbz 3 0 False s = write_sector_loop d wbz 3 (0 + 1) bF' s3"
        using Continue by (simp add: write_sector_loop.simps [of d wbz 3 0 False s])
      then show ?thesis
        using write_run [OF nf, of d wbz bF' s3] by auto
    qed
    then show ?thesis
      using True t3 by auto
  qed
qed

text \<open>
  C1, as amended. In \<open>write_sector\<close> on sector 0 with \<open>write_block_zero\<close> set, on a
  card not flagged magic2 and a 16-byte block 0 in the dump: if the XOR of the first five
  bytes of block 0 is not 0, \<open>write_sector\<close> returns false and no write command is
  issued to the tag; if it is 0 and the unlock succeeded, the write command for block 0
  is the first call after the unlock sequence. For the UID bytes 04 12 34 56 the check
  passes exactly when the BCC byte is 0x74.
\<close>

theorem write_sector_block_zero_bcc:
  assumes "\<not> magic2 s" and "wbz \<noteq> 0" and "length (mtDump s 0) = 16"
  shows "(bcc_xor (mtDump s 0) \<noteq> 0 \<longrightarrow>
            \<not> fst (write_sector d 0 wbz s) \<and>
            (\<forall>e \<in> set (new_events s (snd (write_sector d 0 wbz s))). \<not> is_write e)) \<and>
         (bcc_xor (mtDump s 0) = 0 \<and> fst (unlock_card d s) \<longrightarrow>
            (\<exists>p ok evs. trace (snd (write_sector d 0 wbz s)) =
               trace (snd (unlock_card d s)) @ MifareCmd MC_WRITE 0 p ok # evs)) \<and>
         (take 4 (mtDump s 0) = [0x04, 0x12, 0x34, 0x56] \<longrightarrow>
            (bcc_xor (mtDump s 0) = 0) = (mtDump s 0 ! 4 = 0x74))"
proof -
  define s1 where "s1 = snd (unlock_card d s)"
  obtain pre where u: "trace s1 = trace s @ pre" "\<forall>e \<in> set pre. \<not> is_write e"
    "magic2 s1 = magic2 s" "mtDump s1 = mtDump s"
    using unlock_card_no_write [of d s] unfolding s1_def by blast
  have ws: "write_sector d 0 wbz s =
      (if fst (unlock_card d s) then write_sector_loop d wbz 3 0 False s1 else (False, s1))"
    using assms(2) by (simp add: write_sector_eq s1_def)
  have h: "\<not> magic2 s1" "length (mtDump s1 0) = 16"
    using assms u by simp_all
  note step = write_block_zero_step [OF assms(2) h, of d, unfolded u(4)]
  have c1: "\<not> fst (write_sector d 0 wbz s) \<and>
      (\<forall>e \<in> set (new_events s (snd (write_sector d 0 wbz s))). \<not> is_write e)"
    if bad: "bcc_xor (mtDump s 0) \<noteq> 0"
  proof -
    have "\<not> fst (write_sector d 0 wbz s) \<and> trace (snd (write_sector d 0 wbz s)) = trace s @ pre"
      using step bad u(1) by (simp add: ws)
    then show ?thesis
      using u(2) by (simp add: new_events_def)
  qed
  have c2: "\<exists>p ok evs. trace (snd (write_sector d 0 wbz s)) =
               trace (snd (unlock_card d s)) @ MifareCmd MC_WRITE 0 p ok # evs"
    if "bcc_xor (mtDump s 0) = 0" and "fst (unlock_card d s)"
    using step that by (simp add: ws s1_def)
  show ?thesis
    using c1 c2 bcc_of_uid [of "mtDump s 0"] by blast
qed

lemma ff_tag_unlock_bcc60:
  "unlock_card ff_tag bcc60_state =
     (True, bcc60_state\<lparr>trace :=
        [SetPropertyBool NP_HANDLE_CRC False 0, SetPropertyBool NP_EASY_FRAMING False 0,
         TransceiveBytes [0x50, 0x00, 0x57, 0xcd] 0, TransceiveBits [0x40] 7 8,
         TransceiveBytes [0x43] 1, SetPropertyBool NP_HANDLE_CRC True 0,
         SetPropertyBool NP_EASY_FRAMING True 0],
        abtHalt := [0x50, 0x00, 0x57, 0xcd]\<rparr>)"
  by (simp add: unlock_card_def nfc_device_set_property_bool_def transmit_bytes_def
      transmit_bits_def Let_def bcc60_state_def sim_state_def ff_tag_def sim_device_def
      abtUnlock1_def abtUnlock2_def)

lemma ff_tag_unlock_bcc74:
  "unlock_card ff_tag bcc74_state =
     (True, bcc74_state\<lparr>trace :=
        [SetPropertyBool NP_HANDLE_CRC False 0, SetPropertyBool NP_EASY_FRAMING False 0,
         TransceiveBytes [0x50, 0x00, 0x57, 0xcd] 0, TransceiveBits [0x40] 7 8,
         TransceiveBytes [0x43] 1, SetPropertyBool NP_HANDLE_CRC True 0,
         SetPropertyBool NP_EASY_FRAMING True 0],
        abtHalt := [0x50, 0x00, 0x57, 0xcd]\<rparr>)"
  by (simp add: unlock_card_def nfc_device_set_property_bool_def transmit_bytes_def
      transmit_bits_def Let_def bcc74_state_def sim_state_def ff_tag_def sim_device_def
      abtUnlock1_def abtUnlock2_def)

lemma bcc_states:
  "\<not> magic2 bcc60_state" "length (mtDump bcc60_state 0) = 16"
  "bcc_xor (mtDump bcc60_state 0) \<noteq> 0"
  "\<not> magic2 bcc74_state" "length (mtDump bcc74_state 0) = 16"
  "bcc_xor (mtDump bcc74_state 0) = 0"
  by (simp_all add: bcc60_state_def bcc74_state_def sim_state_def block0_bcc60_def
      block0_bcc74_def bcc_xor_def)

theorem write_sector_block_zero_bcc_witness:
  "\<not> magic2 bcc60_state \<and> bcc_xor (mtDump bcc60_state 0) \<noteq> 0 \<and>
   \<not> fst (write_sector ff_tag 0 1 bcc60_state) \<and>
   \<not> magic2 bcc74_state \<and> bcc_xor (mtDump bcc74_state 0) = 0 \<and>
   fst (unlock_card ff_tag bcc74_state) \<and>
   (\<exists>p ok evs. trace (snd (write_sector ff_tag 0 1 bcc74_state)) =
      trace (snd (unlock_card ff_tag bcc74_state)) @ MifareCmd MC_WRITE 0 p ok # evs)"
proof -
  have one: "(1 :: int) \<noteq> 0" by simp
  show ?thesis
    using write_sector_block_zero_bcc [OF bcc_states(1) one bcc_states(2), of ff_tag]
      write_sector_block_zero_bcc [OF bcc_states(4) one bcc_states(5), of ff_tag]
      bcc_states ff_tag_unlock_bcc74
    by simp
qed

text \<open>
  The claim as stated fails on its example: 0x04 XOR 0x12 XOR 0x34 XOR 0x56 is 0x74, not
  0x60. With UID 04 12 34 56 and BCC byte 0x60 in block 0 of the dump, on a card not
  flagged magic2 whose unlock succeeds, \<open>write_sector\<close> returns false and calls
  nothing after the unlock sequence.
\<close>

theorem write_sector_bcc60_counterexample:
  "\<not> magic2 bcc60_state \<and>
   take 5 (mtDump bcc60_state 0) = [0x04, 0x12, 0x34, 0x56, 0x60] \<and>
   fst (unlock_card ff_tag bcc60_state) \<and>
   \<not> fst (write_sector ff_tag 0 1 bcc60_state) \<and>
   trace (snd (write_sector ff_tag 0 1 bcc60_state)) =
     trace (snd (unlock_card ff_tag bcc60_state))"
proof -
  have one: "(1 :: int) \<noteq> 0" by simp
  have u: "fst (unlock_card ff_tag bcc60_state)"
    "magic2 (snd (unlock_card ff_tag bcc60_state)) = magic2 bcc60_state"
    "mtDump (snd (unlock_card ff_tag bcc60_state)) = mtDump bcc60_state"
    by (simp_all add: ff_tag_unlock_bcc60)
  have h: "\<not> magic2 (snd (unlock_card ff_tag bcc60_state))"
    "length (mtDump (snd (unlock_card ff_tag bcc60_state)) 0) = 16"
    using bcc_states u by simp_all
  have "\<not> fst (write_sector_loop ff_tag 1 3 0 False (snd (unlock_card ff_tag bcc60_state))) \<and>
      trace (snd (write_sector_loop ff_tag 1 3 0 False (snd (unlock_card ff_tag bcc60_state)))) =
        trace (snd (unlock_card ff_tag bcc60_state))"
    using write_block_zero_step [OF one h, of ff_tag] bcc_states(3) u(3) by simp
  moreover have "take 5 (mtDump bcc60_state 0) = [0x04, 0x12, 0x34, 0x56, 0x60]"
    by (simp add: bcc60_state_def block0_bcc60_def)
  ultimately show ?thesis
    using u(1) bcc_states(1) by (simp add: write_sector_eq)
qed

subsection \<open>Where a guessed key is stored\<close>

lemma ff_tag_authenticate_4:
  "fst (authenticate ff_tag 4 sim_state) \<and>
   mtKeys (snd (authenticate ff_tag 4 sim_state)) =
     (mtKeys sim_state)(4 := [0xff, 0xff, 0xff, 0xff, 0xff, 0xff] @ replicate 10 0)"
  by (simp add: authenticate_def Let_def authenticate_guess.simps num_keys_9 candidate_key_def
      keys_def nfc_initiator_mifare_cmd_def mifare_cmd_params_def remember_key_def
      set_abtKeyA_def memcpy_at_def ff_tag_def sim_device_def sim_state_def sim_target_def
      key_ff_def)

lemma ff_tag_write_loop_keys:
  "fst (write_sector_loop ff_tag 0 7 4 False sim_state) \<and>
   mtKeys (snd (write_sector_loop ff_tag 0 7 4 False sim_state)) =
     (mtKeys sim_state)(4 := [0xff, 0xff, 0xff, 0xff, 0xff, 0xff] @ replicate 10 0)"
  by (simp add: write_eval ff_tag_def io_all_ok_def)

text \<open>
  C2. The code at the input that breaks the claim: in guessing mode \<open>write_sector\<close> on
  sector 1 authenticates on block 4, the first block of the sector, and the key found is
  stored in the key A field of slot 4 of \<open>mtKeys\<close>; slot 7, the trailer of the sector,
  which the key-file branch of \<open>authenticate\<close> reads through \<open>get_trailer_block\<close>, is
  left as it was.
\<close>

theorem guessed_key_stored_at_first_block:
  "\<not> bUseKeyFile sim_state \<and>
   get_trailer_block 4 = 7 \<and>
   fst (authenticate ff_tag 4 sim_state) \<and>
   abtKeyA (mtKeys (snd (authenticate ff_tag 4 sim_state)) 4) = [0xff, 0xff, 0xff, 0xff, 0xff, 0xff] \<and>
   mtKeys (snd (authenticate ff_tag 4 sim_state)) 7 = mtKeys sim_state 7 \<and>
   abtKeyA (mtKeys sim_state 7) = replicate 6 0 \<and>
   fst (write_sector ff_tag 1 0 sim_state) \<and>
   abtKeyA (mtKeys (snd (write_sector ff_tag 1 0 sim_state)) 4) = [0xff, 0xff, 0xff, 0xff, 0xff, 0xff] \<and>
   mtKeys (snd (write_sector ff_tag 1 0 sim_state)) 7 = mtKeys sim_state 7"
proof -
  have w: "write_sector ff_tag 1 0 sim_state = write_sector_loop ff_tag 0 7 4 False sim_state"
    by (simp add: write_sector_eq)
  have s: "\<not> bUseKeyFile sim_state" "abtKeyA (mtKeys sim_state 7) = replicate 6 0"
    by (simp_all add: sim_state_def abtKeyA_def)
  have t: "get_trailer_block 4 = 7"
    by (simp add: get_trailer_block_def)
  show ?thesis
    using ff_tag_authenticate_4 ff_tag_write_loop_keys s t
    by (simp add: w abtKeyA_def)
qed

subsection \<open>The exit code\<close>

lemma main_sectors_write_exit:
  "fst (main_sectors d ACTION_WRITE unlock lSector s) = EXIT_SUCCESS"
  by (induction lSector arbitrary: s) simp_all

lemma deaf_tag_read_loop:
  "\<not> fst (read_sector_loop deaf_tag 0 0 3 False keyfile_state) \<and>
   trace (snd (read_sector_loop deaf_tag 0 0 3 False keyfile_state)) =
     [MifareCmd MC_AUTH_A 3 (replicate 6 0 @ [0x04, 0x12, 0x34, 0x56]) False]"
  by (simp add: read_sector_loop.simps read_sector_block_def
      is_trailer_block_unat get_trailer_block_def reselect_after_failure_def authenticate_def
      Let_def nfc_initiator_mifare_cmd_def mifare_cmd_params_def abtKeyA_def
      deaf_tag_def no_key_def sim_device_def keyfile_state_def sim_state_def sim_target_def)

lemma deaf_tag_write_loop:
  "\<not> fst (write_sector_loop deaf_tag 0 3 0 False keyfile_state) \<and>
   trace (snd (write_sector_loop deaf_tag 0 3 0 False keyfile_state)) =
     [MifareCmd MC_AUTH_A 0 (replicate 6 0 @ [0x04, 0x12, 0x34, 0x56]) False]"
  by (simp add: write_sector_loop.simps write_sector_block_def write_sector_first_def
      is_first_block_unat is_trailer_block_unat get_trailer_block_def
      reselect_after_failure_def authenticate_def
      Let_def nfc_initiator_mifare_cmd_def mifare_cmd_params_def abtKeyA_def
      deaf_tag_def no_key_def sim_device_def keyfile_state_def sim_state_def sim_target_def)

text \<open>
  C4. The code at the input that breaks the claim: in key-file mode, on a tag that rejects
  the key of the file, \<open>read_sector\<close> and \<open>write_sector\<close> return false after the one
  rejected authentication, and the sector loop of \<open>main\<close> goes on to
  \<^verbatim>\<open>exit(EXIT_SUCCESS)\<close>: the exit code is 0.
\<close>

theorem exit_code_after_authentication_failure:
  "bUseKeyFile keyfile_state \<and>
   \<not> fst (read_sector deaf_tag 0 0 keyfile_state) \<and>
   trace (snd (read_sector deaf_tag 0 0 keyfile_state)) =
     [MifareCmd MC_AUTH_A 3 (replicate 6 0 @ [0x04, 0x12, 0x34, 0x56]) False] \<and>
   fst (main_sectors deaf_tag ACTION_READ 0 [0] keyfile_state) = 0 \<and>
   \<not> fst (write_sector deaf_tag 0 0 keyfile_state) \<and>
   fst (main_sectors deaf_tag ACTION_WRITE 0 [0] keyfile_state) = 0"
proof -
  have r: "read_sector deaf_tag 0 0 keyfile_state = read_sector_loop deaf_tag 0 0 3 False keyfile_state"
    by (simp add: read_sector_0_eq)
  have w: "write_sector deaf_tag 0 0 keyfile_state = write_sector_loop deaf_tag 0 3 0 False keyfile_state"
    by (simp add: write_sector_eq)
  have k: "bUseKeyFile keyfile_state"
    by (simp add: keyfile_state_def)
  have rs: "read_sector deaf_tag 0 0 keyfile_state =
      (False, snd (read_sector deaf_tag 0 0 keyfile_state))"
    using deaf_tag_read_loop by (simp add: r prod_eq_iff)
  have mr: "fst (main_sectors deaf_tag ACTION_READ 0 [0] keyfile_state) = 0"
    by (subst main_sectors.simps, subst rs) (simp add: EXIT_SUCCESS_def)
  have mw: "fst (main_sectors deaf_tag ACTION_WRITE 0 [0] keyfile_state) = 0"
    by (simp add: main_sectors_write_exit EXIT_SUCCESS_def)
  show ?thesis
    using deaf_tag_read_loop deaf_tag_write_loop k mr mw by (simp add: r w)
qed

end
